theory Spec2Isabelle
  imports Complex_Main "HOL-Library.Word"
begin

unbundle bit_operations_syntax

section \<open>JavaScript strings\<close>

text \<open>
  A JavaScript string is a sequence of 16-bit UTF-16 code units; \<open>s.length\<close> counts code
  units and \<open>s.charCodeAt(i)\<close> reads one.  String literals of the source are written with
  \<open>js\<close>; the block character U+2588 used by the masking functions is the single code unit
  \<open>0x2588\<close>.
\<close>

type_synonym jschar = "16 word"
type_synonym jsstring = "jschar list"

definition js :: "string \<Rightarrow> jsstring" where
  "js s = map (\<lambda>c. of_nat (of_char c)) s"

definition isDigit :: "jschar \<Rightarrow> bool" where
  \<comment> \<open>the digit class of regular expressions, \<open>[0-9]\<close>\<close>
  "isDigit c = (0x30 \<le> c \<and> c \<le> 0x39)"

definition digitChar :: "nat \<Rightarrow> jschar" where
  "digitChar d = of_nat (48 + d)"

definition isWhiteSpace :: "jschar \<Rightarrow> bool" where
  \<comment> \<open>the whitespace class of regular expressions, which is also what \<open>trim\<close> strips: WhiteSpace and LineTerminator\<close>
  "isWhiteSpace c =
     (c \<in> set [0x9, 0xA, 0xB, 0xC, 0xD, 0x20, 0xA0, 0x1680, 0x2028, 0x2029, 0x202F, 0x205F,
                0x3000, 0xFEFF] \<or> (0x2000 \<le> c \<and> c \<le> 0x200A))"

definition isUpper :: "jschar \<Rightarrow> bool" where
  "isUpper c = (0x41 \<le> c \<and> c \<le> 0x5A)"

definition isLower :: "jschar \<Rightarrow> bool" where
  "isLower c = (0x61 \<le> c \<and> c \<le> 0x7A)"

definition isWordChar :: "jschar \<Rightarrow> bool" where
  \<comment> \<open>the word-character class of regular expressions\<close>
  "isWordChar c = (isUpper c \<or> isLower c \<or> isDigit c \<or> c = 0x5F)"

text \<open>
  \<open>toUpperCase\<close> and \<open>toLowerCase\<close> on the ASCII range.  The source applies them only to
  strings of ASCII letters and digits (a hexadecimal rendering, a name part that matched
  \<open>[A-Z][a-z]+\<close>), where this is the whole of their effect.
\<close>

definition toUpperAscii :: "jschar \<Rightarrow> jschar" where
  "toUpperAscii c = (if isLower c then c - 0x20 else c)"

definition toLowerAscii :: "jschar \<Rightarrow> jschar" where
  "toLowerAscii c = (if isUpper c then c + 0x20 else c)"

definition trim :: "jsstring \<Rightarrow> jsstring" where
  "trim s = rev (dropWhile isWhiteSpace (rev (dropWhile isWhiteSpace s)))"

text \<open>
  \<open>s.substring(a, b)\<close>: both indices are clamped to the length and swapped when out of
  order.  \<open>s.slice(0, n)\<close> and \<open>s.substring(0, n)\<close> are \<open>take n s\<close>, \<open>s.slice(n)\<close> and
  \<open>s.substring(n)\<close> are \<open>drop n s\<close> (for \<open>n \<ge> 0\<close>), and \<open>s.slice(-n)\<close> keeps the last
  \<open>n\<close> code units.
\<close>

definition substring :: "nat \<Rightarrow> nat \<Rightarrow> jsstring \<Rightarrow> jsstring" where
  "substring a b s =
     (let a' = min a (length s); b' = min b (length s)
      in take (max a' b' - min a' b') (drop (min a' b') s))"

definition sliceLast :: "nat \<Rightarrow> 'a list \<Rightarrow> 'a list" where
  "sliceLast n s = drop (length s - n) s"

definition padStart :: "nat \<Rightarrow> jschar \<Rightarrow> jsstring \<Rightarrow> jsstring" where
  "padStart n c s = replicate (n - length s) c @ s"

text \<open>\<open>s.split(sep)\<close> for a one-character separator; the result is never empty.\<close>

fun splitOn :: "jschar \<Rightarrow> jsstring \<Rightarrow> jsstring list" where
  "splitOn sep [] = [[]]"
| "splitOn sep (c # cs) =
     (if c = sep then [] # splitOn sep cs
      else (case splitOn sep cs of [] \<Rightarrow> [[c]] | p # ps \<Rightarrow> (c # p) # ps))"

text \<open>\<open>parts.join(sep)\<close>.\<close>

fun joinWith :: "jsstring \<Rightarrow> jsstring list \<Rightarrow> jsstring" where
  "joinWith sep [] = []"
| "joinWith sep [p] = p"
| "joinWith sep (p # q # ps) = p @ sep @ joinWith sep (q # ps)"

text \<open>
  \<open>s[i]\<close> inside a string concatenation: the code unit, or the text \<open>undefined\<close> when
  the index is out of range.
\<close>

definition charAtOrUndefined :: "jsstring \<Rightarrow> nat \<Rightarrow> jsstring" where
  "charAtOrUndefined s i = (if i < length s then [s ! i] else js ''undefined'')"

text \<open>\<open>n.toString()\<close> and template interpolation of a non-negative integer: decimal digits.\<close>

fun natToString :: "nat \<Rightarrow> jsstring" where
  "natToString n =
     (if n < 10 then [digitChar n] else natToString (n div 10) @ [digitChar (n mod 10)])"

declare natToString.simps [simp del]

text \<open>The exceptions the modelled code can raise or receive.\<close>

datatype error =
    RangeError  \<comment> \<open>\<open>String.prototype.repeat\<close> with a negative count\<close>
  | TypeError   \<comment> \<open>an assignment to a \<open>const\<close> binding\<close>
  | ModelFailure  \<comment> \<open>the NER pipeline failed to load or to run\<close>

text \<open>\<open>ch.repeat(n)\<close>.\<close>

definition repeat :: "jschar \<Rightarrow> int \<Rightarrow> error + jsstring" where
  "repeat c n = (if n < 0 then Inl RangeError else Inr (replicate (nat n) c))"

section \<open>Entities\<close>

text \<open>
  The \<open>PIIEntity\<close> of the edge function and the entity objects built by
  \<open>detectEnhancedPII\<close> and the Dashboard share the fields below (the client adds a display
  \<open>id\<close>, the server a \<open>context\<close> excerpt; neither is read by merging or redaction).
  Offsets are non-negative integers.  A confidence is a finite double; it is only ever
  compared, so it is represented by the real number it denotes.
\<close>

datatype category = high | medium | low

record entity =
  etype :: jsstring
  etext :: jsstring
  estart :: nat
  eend :: nat
  confidence :: real
  ecategory :: category

text \<open>
  \<open>xs.sort((a, b) => a.start - b.start)\<close> and \<open>xs.sort((a, b) => b.start - a.start)\<close>:
  \<open>Array.prototype.sort\<close> is stable, as \<open>sort_key\<close> is.
\<close>

definition sortAscending :: "entity list \<Rightarrow> entity list" where
  "sortAscending entities = sort_key estart entities"

definition sortDescending :: "entity list \<Rightarrow> entity list" where
  "sortDescending entities = sort_key (\<lambda>e. - int (estart e)) entities"

fun findIndex :: "('a \<Rightarrow> bool) \<Rightarrow> 'a list \<Rightarrow> nat option" where
  "findIndex P [] = None"
| "findIndex P (x # xs) = (if P x then Some 0 else map_option Suc (findIndex P xs))"

section \<open>Server side: the overlap filter of detectPII\<close>

text \<open>The test used by both \<open>some\<close> and \<open>findIndex\<close> in the filter loop.\<close>

definition overlapsExisting :: "entity \<Rightarrow> entity \<Rightarrow> bool" where
  "overlapsExisting entity existing =
     ((estart entity \<ge> estart existing \<and> estart entity < eend existing) \<or>
      (eend entity > estart existing \<and> eend entity \<le> eend existing) \<or>
      (estart entity \<le> estart existing \<and> eend entity \<ge> eend existing))"

text \<open>The body of the loop \<open>for (const entity of sortedEntities)\<close>.\<close>

definition filterStep :: "entity list \<Rightarrow> entity \<Rightarrow> entity list" where
  "filterStep filteredEntities entity =
     (if \<not> list_ex (overlapsExisting entity) filteredEntities
      then filteredEntities @ [entity]
      else (case findIndex (overlapsExisting entity) filteredEntities of
              None \<Rightarrow> filteredEntities
            | Some i \<Rightarrow>
                if confidence entity > confidence (filteredEntities ! i)
                then filteredEntities[i := entity]
                else filteredEntities))"

text \<open>
  Lines 315--342 of \<open>detectPII\<close>: sort the candidates by start, run the loop, sort the
  survivors.  The candidates are what the pattern scan pushed into \<open>entities\<close>.
\<close>

definition overlapFilter :: "entity list \<Rightarrow> entity list" where
  "overlapFilter entities = sortAscending (foldl filterStep [] (sortAscending entities))"

section \<open>Client side: the Dashboard merge\<close>

text \<open>The \<open>PersonEntity\<close> records returned by \<open>getPersonEntities\<close>.\<close>

record personEntity =
  ptext :: jsstring
  pstart :: nat
  pend :: nat
  pconfidence :: real

definition toNameEntity :: "personEntity \<Rightarrow> entity" where
  "toNameEntity p =
     \<lparr> etype = js ''NAME'', etext = ptext p, estart = pstart p, eend = pend p,
       confidence = pconfidence p,
       ecategory = (if pconfidence p \<ge> 0.9 then high
                    else if pconfidence p \<ge> 0.8 then medium else low) \<rparr>"

definition spanKey :: "entity \<Rightarrow> jsstring" where
  "spanKey e = natToString (estart e) @ js ''-'' @ natToString (eend e)"

text \<open>
  \<open>mergedMap\<close> is a \<open>Map\<close>: insertion-ordered, so it is an association list here.
  \<open>if (!mergedMap.has(spanKey(e))) mergedMap.set(spanKey(e), e)\<close>.
\<close>

definition mergeStep :: "(jsstring \<times> entity) list \<Rightarrow> entity \<Rightarrow> (jsstring \<times> entity) list" where
  "mergeStep mergedMap e =
     (if map_of mergedMap (spanKey e) = None then mergedMap @ [(spanKey e, e)] else mergedMap)"

definition mergeEntities :: "entity list \<Rightarrow> entity list \<Rightarrow> entity list" where
  "mergeEntities regexEntities nerNameEntities =
     map snd (foldl mergeStep [] (regexEntities @ nerNameEntities))"

section \<open>Server side: applyRedaction and its replacement functions\<close>

text \<open>U+2588 FULL BLOCK, the mask character of the server.\<close>

definition blockChar :: jschar where
  "blockChar = 0x2588"

definition bindError :: "error + 'a \<Rightarrow> ('a \<Rightarrow> error + 'b) \<Rightarrow> error + 'b" where
  "bindError r f = (case r of Inl e \<Rightarrow> Inl e | Inr x \<Rightarrow> f x)"

text \<open>
  \<open>name[0] + blockChar.repeat(name.length - 1)\<close>: the arguments are evaluated left to
  right, and \<open>repeat\<close> raises for the empty name.
\<close>

definition maskName :: "jsstring \<Rightarrow> error + jsstring" where
  "maskName name =
     bindError (repeat blockChar (int (length name) - 1))
       (\<lambda>blocks. Inr (charAtOrUndefined name 0 @ blocks))"

fun maskNames :: "jsstring list \<Rightarrow> error + jsstring list" where
  "maskNames [] = Inr []"
| "maskNames (n # ns) =
     bindError (maskName n) (\<lambda>m. bindError (maskNames ns) (\<lambda>ms. Inr (m # ms)))"

definition applyContextualMasking :: "entity \<Rightarrow> error + jsstring" where
  "applyContextualMasking entity =
     (let type = etype entity; text = etext entity in
      if type = js ''EMAIL_ADDRESS'' then
        (let parts = splitOn 0x40 text;
             user = hd parts;
             domain = (case tl parts of [] \<Rightarrow> js ''undefined'' | d # _ \<Rightarrow> d)
         in bindError
              (if length user > 2
               then bindError (repeat blockChar (int (length user) - 2))
                      (\<lambda>blocks. Inr ([user ! 0] @ blocks @ [user ! (length user - 1)]))
               else repeat blockChar (int (length user)))
              (\<lambda>maskedUser. Inr (maskedUser @ js ''@'' @ domain)))
      else if type = js ''SSN'' \<or> type = js ''SSN_ALTERNATIVE'' then
        (if 0x2D \<in> set text then Inr (js ''XXX-XX-'' @ sliceLast 4 text)
         else Inr (js ''XXX XX '' @ sliceLast 4 text))
      else if type = js ''PHONE_NUMBER'' \<or> type = js ''INTERNATIONAL_PHONE'' then
        (if 0x28 \<in> set text then Inr (js ''(XXX) XXX-'' @ sliceLast 4 text)
         else if 0x2B \<in> set text then
           bindError (repeat 0x58 (int (length text) - 6))
             (\<lambda>xs. Inr (js ''+XX '' @ xs @ js '' '' @ sliceLast 4 text))
         else Inr (js ''XXX-XXX-'' @ sliceLast 4 text))
      else if type = js ''CREDIT_CARD'' then Inr (js ''XXXX-XXXX-XXXX-'' @ sliceLast 4 text)
      else if type = js ''ADDRESS'' then
        Inr (js ''XXX '' @ joinWith (js '' '') (tl (splitOn 0x20 text)))
      else if type = js ''PERSON'' \<or> type = js ''FULL_NAME'' then
        (let names = splitOn 0x20 text in
         if length names = 2 then
           bindError (maskName (names ! 0))
             (\<lambda>first. bindError (maskName (names ! 1))
                (\<lambda>second. Inr (first @ js '' '' @ second)))
         else bindError (maskNames names) (\<lambda>ms. Inr (joinWith (js '' '') ms)))
      else if type = js ''IP_ADDRESS'' then
        Inr (joinWith (js ''.'') (take 2 (splitOn 0x2E text)) @ js ''.XXX.XXX'')
      else repeat blockChar (int (min (length text) 12)))"

text \<open>The table \<open>syntheticData\<close> with its fallback \<open>['[SYNTHETIC_DATA]']\<close>.\<close>

definition syntheticOptions :: "jsstring \<Rightarrow> jsstring list" where
  "syntheticOptions entityType =
     (if entityType = js ''PERSON'' then
        map js [''John Smith'', ''Jane Doe'', ''Michael Johnson'', ''Sarah Wilson'',
                ''David Brown'', ''Lisa Garcia'', ''Robert Miller'', ''Emily Davis'',
                ''William Anderson'', ''Jessica Moore'', ''James Taylor'', ''Ashley Thomas'']
      else if entityType = js ''FULL_NAME'' then
        map js [''John Smith'', ''Jane Doe'', ''Michael Johnson'', ''Sarah Wilson'']
      else if entityType = js ''EMAIL_ADDRESS'' then
        map js [''user@example.com'', ''contact@company.org'', ''info@business.net'',
                ''admin@enterprise.com'', ''support@service.co'', ''hello@startup.io'']
      else if entityType = js ''PHONE_NUMBER'' then
        map js [''(555) 123-4567'', ''(555) 987-6543'', ''(555) 456-7890'',
                ''(555) 321-9876'', ''(555) 654-3210'', ''(555) 789-0123'']
      else if entityType = js ''ADDRESS'' then
        map js [''123 Main Street'', ''456 Oak Avenue'', ''789 Pine Road'',
                ''321 Elm Drive'', ''654 Maple Lane'', ''987 Cedar Court'']
      else if entityType = js ''SSN'' then
        map js [''123-45-6789'', ''987-65-4321'', ''456-78-9012'']
      else if entityType = js ''CREDIT_CARD'' then
        map js [''4111111111111111'', ''5555555555554444'', ''378282246310005'']
      else if entityType = js ''IP_ADDRESS'' then
        map js [''192.168.1.100'', ''10.0.0.50'', ''172.16.0.200'']
      else [js ''[SYNTHETIC_DATA]''])"

definition generateSyntheticData :: "jsstring \<Rightarrow> nat \<Rightarrow> jsstring" where
  "generateSyntheticData entityType entityNum =
     (let options = syntheticOptions entityType
      in options ! (entityNum mod length options))"

text \<open>
  The hash loop.  \<open>hash << 5\<close> is a 32-bit shift; the subtraction and the addition of
  a code unit are exact in double arithmetic (all values stay below \<open>2^53\<close>) and
  \<open>hash & hash\<close> reduces the sum to a signed 32-bit integer, so one round is the wrapping
  word operation below.
\<close>

fun hashLoop :: "jsstring \<Rightarrow> 32 word \<Rightarrow> 32 word" where
  "hashLoop [] hash = hash"
| "hashLoop (c # cs) hash = hashLoop cs ((push_bit 5 hash - hash) + ucast c)"

definition hexDigit :: "nat \<Rightarrow> jschar" where
  "hexDigit d = (if d < 10 then of_nat (48 + d) else of_nat (87 + d))"

text \<open>\<open>n.toString(16)\<close> of a non-negative integer.\<close>

fun toHexString :: "nat \<Rightarrow> jsstring" where
  "toHexString n =
     (if n < 16 then [hexDigit n] else toHexString (n div 16) @ [hexDigit (n mod 16)])"

declare toHexString.simps [simp del]

definition hashStr :: "jsstring \<Rightarrow> jsstring" where
  "hashStr text =
     map toUpperAscii
       (take 8 (padStart 8 0x30 (toHexString (nat \<bar>sint (hashLoop text 0)\<bar>))))"

definition generateCryptographicHash :: "jsstring \<Rightarrow> jsstring \<Rightarrow> jsstring" where
  "generateCryptographicHash text entityType =
     js ''[HASH_'' @ entityType @ js ''_'' @ hashStr text @ js '']''"

definition applyPartialVisibility :: "entity \<Rightarrow> jsstring" where
  "applyPartialVisibility entity =
     (let type = etype entity; text = etext entity in
      if type = js ''EMAIL_ADDRESS'' then
        (let parts = splitOn 0x40 text;
             user = hd parts;
             domain = (case tl parts of [] \<Rightarrow> js ''undefined'' | d # _ \<Rightarrow> d)
         in take 2 user @ js ''***@'' @ domain)
      else if type = js ''PHONE_NUMBER'' then js ''***-***-'' @ sliceLast 4 text
      else if type = js ''PERSON'' \<or> type = js ''FULL_NAME'' then
        (let names = splitOn 0x20 text
         in hd names @ js '' '' @
            joinWith (js '' '') (map (\<lambda>n. charAtOrUndefined n 0 @ js ''***'') (tl names)))
      else if type = js ''ADDRESS'' then
        js ''*** '' @ joinWith (js '' '') (sliceLast 2 (splitOn 0x20 text))
      else take 2 text @ js ''***'' @ sliceLast 2 text)"

text \<open>The \<open>switch (method)\<close> of \<open>applyRedaction\<close>, with its \<open>default\<close> branch.\<close>

definition serverReplacement :: "jsstring \<Rightarrow> entity \<Rightarrow> nat \<Rightarrow> error + jsstring" where
  "serverReplacement method entity entityNum =
     (if method = js ''Smart Placeholders'' then
        Inr (js ''['' @ etype entity @ js ''_'' @ padStart 2 0x30 (natToString entityNum) @ js '']'')
      else if method = js ''Contextual Masking'' then applyContextualMasking entity
      else if method = js ''Synthetic Data'' then
        Inr (generateSyntheticData (etype entity) entityNum)
      else if method = js ''Cryptographic Hash'' then
        Inr (generateCryptographicHash (etext entity) (etype entity))
      else if method = js ''Partial Visibility'' then Inr (applyPartialVisibility entity)
      else Inr (js ''[REDACTED]''))"

text \<open>
  The loop of \<open>applyRedaction\<close> over \<open>sortedEntities\<close>; the state is \<open>entityCounts\<close> and
  \<open>redactedText\<close>.  An exception raised by a replacement function leaves the loop.
  \<open>entityCounts\<close> is an object indexed by the entity type; the types are the keys of
  \<open>PII_PATTERNS\<close>, none of which names a property of \<open>Object.prototype\<close>, so a lookup
  finds the count the loop stored or nothing.
\<close>

fun redactLoop ::
  "jsstring \<Rightarrow> (jsstring \<rightharpoonup> nat) \<Rightarrow> jsstring \<Rightarrow> entity list \<Rightarrow> error + jsstring" where
  "redactLoop method entityCounts redactedText [] = Inr redactedText"
| "redactLoop method entityCounts redactedText (entity # rest) =
     (let entityNum = (case entityCounts (etype entity) of None \<Rightarrow> 0 | Some n \<Rightarrow> n) + 1;
          entityCounts' = entityCounts(etype entity \<mapsto> entityNum)
      in case serverReplacement method entity entityNum of
           Inl err \<Rightarrow> Inl err
         | Inr replacement \<Rightarrow>
             redactLoop method entityCounts'
               (take (estart entity) redactedText @ replacement @ drop (eend entity) redactedText)
               rest)"

definition applyRedaction :: "jsstring \<Rightarrow> entity list \<Rightarrow> jsstring \<Rightarrow> error + jsstring" where
  "applyRedaction text entities method =
     redactLoop method Map.empty text (sortDescending entities)"

section \<open>Client side: redaction in handleTextSubmit\<close>

text \<open>
  \<open>nameIndexMap\<close>: the NAME entities in ascending start order, each span key mapped to
  its 1-based position (a later \<open>set\<close> of the same key overwrites).
\<close>

definition nameEntitiesInOrder :: "entity list \<Rightarrow> entity list" where
  "nameEntitiesInOrder entities = sortAscending (filter (\<lambda>e. etype e = js ''NAME'') entities)"

fun setIndices :: "(jsstring \<rightharpoonup> nat) \<Rightarrow> nat \<Rightarrow> entity list \<Rightarrow> (jsstring \<rightharpoonup> nat)" where
  "setIndices m i [] = m"
| "setIndices m i (e # es) = setIndices (m(spanKey e \<mapsto> i + 1)) (i + 1) es"

definition nameIndexMap :: "entity list \<Rightarrow> (jsstring \<rightharpoonup> nat)" where
  "nameIndexMap entities = setIndices Map.empty 0 (nameEntitiesInOrder entities)"

text \<open>
  The \<open>switch (selectedMethod)\<close> of the Dashboard.  Its \<open>default\<close> label shares the
  block of \<open>'Smart Placeholders'\<close>, so every name without a \<open>case\<close> of its own takes that
  block.  \<open>randomToken k\<close> stands for the value of
  \<open>Math.random().toString(36).substr(2, 8).toUpperCase()\<close> at the \<open>k\<close>-th draw; the
  second component of the result is the number of draws made so far.
\<close>

definition dashReplacement ::
  "jsstring \<Rightarrow> (jsstring \<rightharpoonup> nat) \<Rightarrow> (nat \<Rightarrow> jsstring) \<Rightarrow> nat \<Rightarrow> entity \<Rightarrow> jsstring \<times> nat" where
  "dashReplacement selectedMethod indexMap randomToken k entity =
     (if selectedMethod = js ''Complete Removal'' then ([], k)
      else if selectedMethod = js ''Tokenization'' then (js ''TOKEN_'' @ randomToken k, k + 1)
      else if selectedMethod = js ''Masking'' then
        (replicate (min (length (etext entity)) 8) 0x2A, k)
      else if etype entity = js ''NAME'' then
        (let idx = (case indexMap (spanKey entity) of None \<Rightarrow> 1 | Some i \<Rightarrow> if i = 0 then 1 else i)
         in (js ''[NAME_'' @ natToString idx @ js '']'', k))
      else (js ''['' @ etype entity @ js '']'', k))"

fun dashLoop ::
  "jsstring \<Rightarrow> (jsstring \<rightharpoonup> nat) \<Rightarrow> (nat \<Rightarrow> jsstring) \<Rightarrow> nat \<Rightarrow> jsstring \<Rightarrow> entity list \<Rightarrow> jsstring" where
  "dashLoop selectedMethod indexMap randomToken k redactedText [] = redactedText"
| "dashLoop selectedMethod indexMap randomToken k redactedText (entity # rest) =
     (let before = take (estart entity) redactedText;
          after = drop (eend entity) redactedText;
          (replacement, k') = dashReplacement selectedMethod indexMap randomToken k entity
      in dashLoop selectedMethod indexMap randomToken k' (before @ replacement @ after) rest)"

definition dashRedact ::
  "jsstring \<Rightarrow> (nat \<Rightarrow> jsstring) \<Rightarrow> jsstring \<Rightarrow> entity list \<Rightarrow> jsstring" where
  "dashRedact selectedMethod randomToken text entities =
     dashLoop selectedMethod (nameIndexMap entities) randomToken 0 text (sortDescending entities)"

section \<open>Validators of detectEnhancedPII\<close>

subsection \<open>isValidCreditCard\<close>

text \<open>\<open>parseInt\<close> of one decimal digit.\<close>

definition parseDigit :: "jschar \<Rightarrow> nat" where
  "parseDigit c = unat c - 48"

text \<open>
  The loop \<open>for (let i = cleaned.length - 1; i >= 0; i--)\<close>: it reads the digits from the
  right, so it runs over the reversed string, with \<open>sum\<close> (here \<open>sumSoFar\<close>) and \<open>isEven\<close> as its state.
\<close>

fun luhnLoop :: "jsstring \<Rightarrow> nat \<Rightarrow> bool \<Rightarrow> nat" where
  "luhnLoop [] sumSoFar isEven = sumSoFar"
| "luhnLoop (c # cs) sumSoFar isEven =
     (let digit = parseDigit c;
          digit = (if isEven
                   then (let doubled = digit * 2 in if doubled > 9 then doubled - 9 else doubled)
                   else digit)
      in luhnLoop cs (sumSoFar + digit) (\<not> isEven))"

definition isValidCreditCard :: "jsstring \<Rightarrow> bool" where
  "isValidCreditCard number =
     (let cleaned = filter isDigit number in
      if length cleaned < 13 \<or> length cleaned > 19 then False
      else luhnLoop (rev cleaned) 0 False mod 10 = 0)"

subsection \<open>Regular expressions\<close>

text \<open>
  The patterns of \<open>isValidPersonName\<close> use literals, classes, grouping, alternation,
  \<open>?\<close>, \<open>*\<close>, \<open>+\<close> and the assertions for input start, input end and word boundary; none
  has the \<open>g\<close> or \<open>m\<close> flag, so \<open>test\<close> is a pure function of the string.
  \<open>matchFrom r s i\<close> lists the positions at which a match of \<open>r\<close> that starts at \<open>i\<close>
  can end, and \<open>regexTest r s\<close> says whether some match exists, which is what
  \<open>r.test(s)\<close> returns.
\<close>

datatype regex =
    RChar "jschar \<Rightarrow> bool"
  | REps
  | RSeq regex regex
  | RAlt regex regex
  | RStar regex
  | RBegin
  | REnd
  | RWordB

definition wordCharAt :: "jsstring \<Rightarrow> int \<Rightarrow> bool" where
  "wordCharAt s i = (0 \<le> i \<and> i < int (length s) \<and> isWordChar (s ! nat i))"

definition wordBoundaryAt :: "jsstring \<Rightarrow> nat \<Rightarrow> bool" where
  "wordBoundaryAt s i = (wordCharAt s (int i - 1) \<noteq> wordCharAt s (int i))"

text \<open>
  The end positions of zero or more iterations: every position is at most the length of
  the string, so that many rounds reach them all.
\<close>

primrec closure :: "nat \<Rightarrow> (nat \<Rightarrow> nat list) \<Rightarrow> nat list \<Rightarrow> nat list" where
  "closure 0 f ps = ps"
| "closure (Suc n) f ps = closure n f (remdups (ps @ concat (map f ps)))"

primrec matchFrom :: "regex \<Rightarrow> jsstring \<Rightarrow> nat \<Rightarrow> nat list" where
  "matchFrom (RChar P) s i = (if i < length s \<and> P (s ! i) then [Suc i] else [])"
| "matchFrom REps s i = [i]"
| "matchFrom (RSeq r1 r2) s i = remdups (concat (map (matchFrom r2 s) (matchFrom r1 s i)))"
| "matchFrom (RAlt r1 r2) s i = remdups (matchFrom r1 s i @ matchFrom r2 s i)"
| "matchFrom (RStar r) s i = closure (Suc (length s)) (matchFrom r s) [i]"
| "matchFrom RBegin s i = (if i = 0 then [i] else [])"
| "matchFrom REnd s i = (if i = length s then [i] else [])"
| "matchFrom RWordB s i = (if wordBoundaryAt s i then [i] else [])"

fun matchesBetween :: "regex \<Rightarrow> jsstring \<Rightarrow> nat \<Rightarrow> nat \<Rightarrow> bool" where
  "matchesBetween r s i 0 = (matchFrom r s i \<noteq> [])"
| "matchesBetween r s i (Suc n) = (matchFrom r s i \<noteq> [] \<or> matchesBetween r s (Suc i) n)"

definition regexTest :: "regex \<Rightarrow> jsstring \<Rightarrow> bool" where
  "regexTest r s = matchesBetween r s 0 (length s)"

text \<open>
  Literal text, case-sensitive and under the \<open>i\<close> flag.  Without the \<open>u\<close> flag a code unit
  outside ASCII never canonicalises to an ASCII one, so an ASCII letter of a pattern
  matches exactly its two ASCII cases.
\<close>

definition lit :: "string \<Rightarrow> regex" where
  "lit w = foldr (\<lambda>c r. RSeq (RChar (\<lambda>x. x = c)) r) (js w) REps"

definition litI :: "string \<Rightarrow> regex" where
  "litI w = foldr (\<lambda>c r. RSeq (RChar (\<lambda>x. toUpperAscii x = toUpperAscii c)) r) (js w) REps"

fun alts :: "regex list \<Rightarrow> regex" where
  "alts [] = RChar (\<lambda>x. False)"
| "alts [r] = r"
| "alts (r # rs) = RAlt r (alts rs)"

definition opt :: "regex \<Rightarrow> regex" where
  "opt r = RAlt r REps"

definition plus :: "regex \<Rightarrow> regex" where
  "plus r = RSeq r (RStar r)"

definition seqs :: "regex list \<Rightarrow> regex" where
  "seqs rs = foldr RSeq rs REps"

definition ws :: regex where
  "ws = RChar isWhiteSpace"

subsection \<open>isValidPersonName\<close>

text \<open>\<open>documentRejectionPatterns\<close>, in the order of the array.\<close>

definition documentRejectionPatterns :: "regex list" where
  "documentRejectionPatterns =
     [ seqs [RWordB,
             alts [litI ''document'', litI ''record'', seqs [litI ''note'', opt (litI ''s'')],
                   litI ''form'', litI ''report'', litI ''file'', litI ''header'', litI ''title'',
                   litI ''section'', litI ''chapter'', litI ''policy'', litI ''manual'',
                   litI ''guide'', litI ''instruction''],
             RWordB],
       seqs [RWordB,
             alts [seqs [litI ''library'', plus ws, litI ''card''],
                   seqs [litI ''book'', plus ws, litI ''title''],
                   seqs [litI ''return'', plus ws, litI ''date''],
                   seqs [litI ''due'', plus ws, litI ''date''],
                   seqs [litI ''document'', plus ws, litI ''type''],
                   seqs [litI ''form'', plus ws, litI ''name'']],
             RWordB],
       seqs [lit '':'', REnd],
       seqs [RBegin, RStar ws, lit ''-'', RStar ws],
       seqs [RWordB,
             alts [litI ''type'', litI ''category'', litI ''classification'', litI ''status'',
                   litI ''level'', litI ''grade'', litI ''rank'', litI ''position''],
             RStar ws, lit '':'', RStar ws, REnd] ]"

definition roleRejectionPatterns :: "regex list" where
  "roleRejectionPatterns =
     [ seqs [RWordB,
             alts (map litI
               [''employee'', ''staff'', ''worker'', ''manager'', ''director'', ''supervisor'',
                ''coordinator'', ''administrator'', ''assistant'', ''specialist'', ''analyst'',
                ''engineer'', ''developer'', ''designer'', ''consultant'', ''advisor'',
                ''representative'', ''associate'', ''intern'', ''volunteer'', ''participant'',
                ''applicant'', ''candidate'', ''recipient'', ''beneficiary'']),
             RWordB],
       seqs [RWordB,
             alts (map litI [''id'', ''number'', ''code'', ''ref'', ''reference'']),
             RWordB] ]"

definition strongAcceptancePatterns :: "regex list" where
  "strongAcceptancePatterns =
     [ seqs [RWordB,
             alts [seqs [litI ''dr'', opt (lit ''.'')], seqs [litI ''mr'', opt (lit ''.'')],
                   seqs [litI ''mrs'', opt (lit ''.'')], seqs [litI ''ms'', opt (lit ''.'')],
                   litI ''miss'', seqs [litI ''prof'', opt (lit ''.'')], litI ''doctor''],
             RStar ws, REnd],
       seqs [RWordB,
             alts (map litI [''patient'', ''client'', ''customer'', ''visitor'', ''guest'',
                             ''resident'', ''student'', ''member'']),
             plus ws,
             opt (seqs [litI ''name'', RStar ws,
                        opt (RChar (\<lambda>x. x = 0x3A \<or> x = 0x2E)), RStar ws]),
             REnd],
       seqs [RWordB,
             alts [seqs [litI ''signed'', plus ws, litI ''by''],
                   seqs [litI ''written'', plus ws, litI ''by''],
                   seqs [litI ''created'', plus ws, litI ''by''],
                   seqs [litI ''prepared'', plus ws, litI ''by''],
                   seqs [litI ''reviewed'', plus ws, litI ''by''],
                   seqs [litI ''approved'', plus ws, litI ''by'']],
             RStar ws, REnd],
       seqs [RWordB,
             alts (map litI [''dear'', ''hello'', ''hi'', ''sincerely'', ''regards'', ''from'',
                             ''to'', ''cc'', ''bcc'']),
             RStar ws, REnd],
       seqs [RWordB,
             alts (map litI [''contact'', ''author'', ''creator'', ''owner'', ''holder'']),
             RStar ws, opt (RChar (\<lambda>x. x = 0x3A \<or> x = 0x2E)), RStar ws, REnd] ]"

text \<open>The test for a title at the head of the name itself.\<close>

definition titlePrefixPattern :: regex where
  "titlePrefixPattern =
     seqs [RBegin,
           alts [seqs [litI ''dr'', opt (lit ''.'')], seqs [litI ''mr'', opt (lit ''.'')],
                 seqs [litI ''mrs'', opt (lit ''.'')], seqs [litI ''ms'', opt (lit ''.'')],
                 litI ''miss'', seqs [litI ''prof'', opt (lit ''.'')]],
           plus ws]"

text \<open>The pattern of a name part: one capital, then one or more lower-case letters.\<close>

definition namePartPattern :: regex where
  "namePartPattern = seqs [RBegin, RChar isUpper, plus (RChar isLower), REnd]"

text \<open>
  \<open>s.split\<close> on runs of whitespace: a leading or trailing run leaves an empty part, and
  the empty string splits into one empty part.
\<close>

function splitWhitespace :: "jsstring \<Rightarrow> jsstring list" where
  "splitWhitespace s =
     (let part = takeWhile (\<lambda>c. \<not> isWhiteSpace c) s;
          rest = dropWhile (\<lambda>c. \<not> isWhiteSpace c) s
      in if rest = [] then [part]
         else part # splitWhitespace (dropWhile isWhiteSpace rest))"
  by pat_completeness auto
termination
proof (relation "measure length")
  show "wf (measure length)" by simp
next
  fix s :: jsstring and part rest
  assume rest: "rest = dropWhile (\<lambda>c. \<not> isWhiteSpace c) s" and ne: "rest \<noteq> []"
  have "length (dropWhile isWhiteSpace rest) < length rest"
    using ne rest
    by (metis dropWhile_eq_Nil_conv hd_dropWhile length_dropWhile_le dropWhile.simps(2)
        list.exhaust_sel length_Cons less_Suc_eq_le)
  also have "length rest \<le> length s"
    unfolding rest by (rule length_dropWhile_le)
  finally show "(dropWhile isWhiteSpace rest, s) \<in> measure length" by simp
qed

declare splitWhitespace.simps [simp del]

definition commonFirstNames :: "jsstring list" where
  "commonFirstNames = map js
     [''emily'', ''sarah'', ''michael'', ''john'', ''jane'', ''david'', ''lisa'', ''robert'',
      ''mary'', ''james'', ''rajesh'', ''priya'', ''kumar'', ''chen'', ''wang'', ''singh'',
      ''patel'', ''johnson'', ''smith'', ''brown'', ''garcia'', ''miller'', ''davis'',
      ''rodriguez'', ''martinez'', ''hernandez'', ''lopez'', ''gonzalez'', ''wilson'',
      ''anderson'', ''thomas'', ''taylor'', ''moore'', ''jackson'', ''martin'', ''lee'',
      ''perez'', ''thompson'', ''white'', ''harris'', ''sanchez'', ''clark'', ''ramirez'',
      ''lewis'', ''robinson'', ''walker'', ''young'', ''allen'', ''king'', ''wright'', ''scott'',
      ''torres'', ''nguyen'', ''hill'', ''flores'', ''green'']"

text \<open>The three text windows computed at the head of \<open>isValidPersonName\<close>.\<close>

definition contextStart :: "nat \<Rightarrow> nat" where
  "contextStart position = position - 150"

definition contextEnd :: "jsstring \<Rightarrow> jsstring \<Rightarrow> nat \<Rightarrow> nat" where
  "contextEnd name fullText position = min (length fullText) (position + length name + 150)"

definition beforeText :: "jsstring \<Rightarrow> nat \<Rightarrow> jsstring" where
  "beforeText fullText position = substring (contextStart position) position fullText"

definition afterText :: "jsstring \<Rightarrow> jsstring \<Rightarrow> nat \<Rightarrow> jsstring" where
  "afterText name fullText position =
     substring (position + length name) (contextEnd name fullText position) fullText"

definition validNamePart :: "jsstring \<Rightarrow> bool" where
  "validNamePart part = (length part \<ge> 2 \<and> regexTest namePartPattern part \<and> length part \<le> 15)"

definition isValidPersonName :: "jsstring \<Rightarrow> jsstring \<Rightarrow> nat \<Rightarrow> bool" where
  "isValidPersonName name fullText position =
     (let before = beforeText fullText position;
          after = afterText name fullText position
      in if list_ex (\<lambda>pattern. regexTest pattern before \<or> regexTest pattern after)
              documentRejectionPatterns then False
         else if list_ex (\<lambda>pattern. regexTest pattern (substring 0 50 after))
              roleRejectionPatterns then False
         else if list_ex (\<lambda>pattern. regexTest pattern before) strongAcceptancePatterns then True
         else if regexTest titlePrefixPattern name then True
         else (let nameParts = splitWhitespace (trim name) in
               if length nameParts < 2 \<or> length nameParts > 3 then False
               else if \<not> list_all validNamePart nameParts then False
               else if map toLowerAscii (hd nameParts) \<in> set commonFirstNames then True
               else True))"

section \<open>The two pipelines\<close>

subsection \<open>getPersonEntities\<close>

text \<open>
  One entry of the output of the token-classification pipeline, which is an external
  model.  \<open>ngroup\<close> is the value the code computes into \<open>group\<close> (the label, upper-cased)
  and \<open>nscore\<close> the value of \<open>Number(ent.score) || 0\<close>.  Loading or running the model can
  reject; \<open>getPersonEntities\<close> has no handler, so the rejection is its own result.
\<close>

record nerOutput =
  ngroup :: jsstring
  nscore :: real
  nword :: jsstring
  nstart :: nat
  nend :: nat

definition toPerson :: "nerOutput \<Rightarrow> personEntity" where
  "toPerson ent =
     \<lparr> ptext = nword ent, pstart = nstart ent, pend = nend ent,
       pconfidence = max 0 (min 1 (nscore ent)) \<rparr>"

definition personSpanKey :: "personEntity \<Rightarrow> jsstring" where
  "personSpanKey p = natToString (pstart p) @ js ''-'' @ natToString (pend p)"

fun dedupeBySpan :: "jsstring list \<Rightarrow> personEntity list \<Rightarrow> personEntity list" where
  "dedupeBySpan seen [] = []"
| "dedupeBySpan seen (p # ps) =
     (let key = personSpanKey p
      in if key \<in> set seen then dedupeBySpan seen ps else p # dedupeBySpan (key # seen) ps)"

definition getPersonEntities ::
  "(jsstring \<Rightarrow> error + nerOutput list) \<Rightarrow> jsstring \<Rightarrow> error + personEntity list" where
  "getPersonEntities ner text =
     (if text = [] \<or> trim text = [] then Inr []
      else bindError (ner text)
             (\<lambda>output. Inr (dedupeBySpan []
                (map toPerson
                  (filter (\<lambda>ent. ngroup ent = js ''PER'' \<or> ngroup ent = js ''PERSON'') output)))))"

subsection \<open>handleTextSubmit\<close>

record processingResult =
  originalText :: jsstring
  redactedText :: jsstring
  resultEntities :: "entity list"
  totalEntities :: nat

text \<open>
  What a call of \<open>handleTextSubmit\<close> ends in: the early return with the
  \<open>No Text Provided\<close> notice, the \<open>catch\<close> block with the \<open>Processing Failed\<close> notice, or
  \<open>setProcessingResult(result)\<close>.  The regular-expression scan \<open>detectEnhancedPII\<close> is a
  parameter.
\<close>

datatype outcome = NoTextProvided | ProcessingFailed | ProcessingComplete processingResult

definition handleTextSubmit ::
  "(jsstring \<Rightarrow> entity list) \<Rightarrow> (jsstring \<Rightarrow> error + nerOutput list) \<Rightarrow> jsstring \<Rightarrow>
   (nat \<Rightarrow> jsstring) \<Rightarrow> jsstring \<Rightarrow> outcome" where
  "handleTextSubmit detectEnhancedPII ner selectedMethod randomToken text =
     (if trim text = [] then NoTextProvided
      else (let regexEntities = detectEnhancedPII text in
            case getPersonEntities ner text of
              Inl err \<Rightarrow> ProcessingFailed
            | Inr nerPersons \<Rightarrow>
                (let nerNameEntities = map toNameEntity nerPersons;
                     entities = mergeEntities regexEntities nerNameEntities;
                     redacted = dashRedact selectedMethod randomToken text entities
                 in ProcessingComplete
                      \<lparr> originalText = text, redactedText = redacted,
                        resultEntities = entities, totalEntities = length entities \<rparr>)))"

subsection \<open>The edge function\<close>

text \<open>
  \<open>detectPII\<close> is the pattern scan followed by the overlap filter.  The scan (the loop
  over \<open>PII_PATTERNS\<close>) is a parameter here; it can raise, since line 290 assigns to the
  \<open>const\<close> binding \<open>matchText\<close> of line 254 when it keeps a person name.
\<close>

definition detectPII ::
  "(jsstring \<Rightarrow> error + entity list) \<Rightarrow> jsstring \<Rightarrow> error + entity list" where
  "detectPII patternScan text =
     bindError (patternScan text) (\<lambda>entities. Inr (overlapFilter entities))"

text \<open>
  The request handler for a POST whose body parsed to \<open>text\<close> and \<open>redactionMethod\<close>
  (either may be absent) and no \<open>documentId\<close>.  \<open>!text\<close> holds for an absent and for an
  empty text.
\<close>

datatype response =
    Response200 processingResult
  | Response400 jsstring
  | Response500 jsstring

definition serve ::
  "(jsstring \<Rightarrow> error + entity list) \<Rightarrow> jsstring option \<Rightarrow> jsstring option \<Rightarrow> response" where
  "serve patternScan text redactionMethod =
     (let method = (case redactionMethod of None \<Rightarrow> js ''Smart Placeholders'' | Some m \<Rightarrow> m) in
      case text of
        None \<Rightarrow> Response400 (js ''Text is required'')
      | Some t \<Rightarrow>
          if t = [] then Response400 (js ''Text is required'')
          else (case detectPII patternScan t of
                  Inl err \<Rightarrow> Response500 (js ''Internal server error'')
                | Inr entities \<Rightarrow>
                    (case applyRedaction t entities method of
                       Inl err \<Rightarrow> Response500 (js ''Internal server error'')
                     | Inr redacted \<Rightarrow>
                         Response200
                           \<lparr> originalText = t, redactedText = redacted,
                             resultEntities = entities, totalEntities = length entities \<rparr>)))"

section \<open>Notions used by the properties\<close>

text \<open>An entity whose span is a non-empty half-open interval.\<close>

definition wellFormed :: "entity \<Rightarrow> bool" where
  "wellFormed e = (estart e < eend e)"

definition disjointSpans :: "entity \<Rightarrow> entity \<Rightarrow> bool" where
  "disjointSpans a b = (eend a \<le> estart b \<or> eend b \<le> estart a)"


text \<open>The half-open-interval overlap test of the specification.\<close>

definition halfOpenOverlap :: "entity \<Rightarrow> entity \<Rightarrow> bool" where
  "halfOpenOverlap a b = (estart a < eend b \<and> estart b < eend a)"

text \<open>
  The invariant of the filter loop: every accepted entity is well formed and starts no
  later than the candidate being processed; the accepted list has no repetition and its
  members are pairwise disjoint.
\<close>

definition accepted_inv :: "nat \<Rightarrow> entity list \<Rightarrow> bool" where
  "accepted_inv s acc =
     (distinct acc \<and> list_all (\<lambda>x. wellFormed x \<and> estart x \<le> s) acc \<and>
      list_all (\<lambda>a. list_all (\<lambda>b. a = b \<or> disjointSpans a b) acc) acc)"

text \<open>The association list behind \<open>mergedMap\<close> holds every entity under its own span key.\<close>

definition keyed :: "(jsstring \<times> entity) list \<Rightarrow> bool" where
  "keyed m = list_all (\<lambda>(k, e). k = spanKey e) m"

text \<open>
  A canonical entity list over a text: every span is non-empty and inside the text, and
  each entity ends before the next one starts.
\<close>

definition canonicalList :: "jsstring \<Rightarrow> entity list \<Rightarrow> bool" where
  "canonicalList text es =
     (list_all (\<lambda>e. estart e < eend e \<and> eend e \<le> length text) es \<and>
      sorted_wrt (\<lambda>a b. eend a \<le> estart b) es)"

text \<open>
  The text read left to right: the entity-free stretch before each entity, a replacement
  in place of the entity, and the rest of the text after the last one.
\<close>

fun interleave :: "jsstring \<Rightarrow> nat \<Rightarrow> entity list \<Rightarrow> jsstring list \<Rightarrow> jsstring" where
  "interleave text pos [] rs = drop pos text"
| "interleave text pos (e # es) rs =
     take (estart e - pos) (drop pos text) @ (case rs of [] \<Rightarrow> [] | r # _ \<Rightarrow> r) @
     interleave text (eend e) es (tl rs)"

text \<open>
  The checksum in the words of the specification: counting from the rightmost digit,
  every second digit is doubled, 9 is subtracted from a doubled value above 9, and all
  are added.
\<close>

definition luhnSum :: "jsstring \<Rightarrow> nat" where
  "luhnSum digits =
     (\<Sum>i < length digits.
        let d = parseDigit (rev digits ! i)
        in if odd i then (if 2 * d > 9 then 2 * d - 9 else 2 * d) else d)"

definition isUpperHex :: "jschar \<Rightarrow> bool" where
  "isUpperHex c = (isDigit c \<or> (0x41 \<le> c \<and> c \<le> 0x46))"

text \<open>
  The strategy names with a \<open>case\<close> of their own in the \<open>switch\<close> of \<open>applyRedaction\<close>, and
  those with a block of their own in the \<open>switch\<close> of the Dashboard.
\<close>

definition supportedMethods :: "jsstring list" where
  "supportedMethods = map js [''Smart Placeholders'', ''Contextual Masking'', ''Synthetic Data'',
     ''Cryptographic Hash'', ''Partial Visibility'']"

definition dashboardCases :: "jsstring list" where
  "dashboardCases = map js [''Complete Removal'', ''Tokenization'', ''Masking'']"

text \<open>The replacement text of the server under Smart Placeholders.\<close>

definition placeholder :: "jsstring \<Rightarrow> nat \<Rightarrow> jsstring" where
  "placeholder type n = js ''['' @ type @ js ''_'' @ padStart 2 0x30 (natToString n) @ js '']''"

text \<open>
  Given one sequence number for each entity of a list, the numbers that went to the
  entities of one type.
\<close>

definition numbersOfType :: "jsstring \<Rightarrow> entity list \<Rightarrow> nat list \<Rightarrow> nat list" where
  "numbersOfType t es nums = map snd (filter (\<lambda>(e, n). etype e = t) (zip es nums))"

text \<open>
  The stages of the cascade of \<open>isValidPersonName\<close>, each the condition of one of its
  \<open>if\<close> statements, and the form of a name part written out.
\<close>

definition documentRejected :: "jsstring \<Rightarrow> jsstring \<Rightarrow> nat \<Rightarrow> bool" where
  "documentRejected name fullText position =
     list_ex (\<lambda>pattern. regexTest pattern (beforeText fullText position) \<or>
                        regexTest pattern (afterText name fullText position))
       documentRejectionPatterns"

definition roleRejected :: "jsstring \<Rightarrow> jsstring \<Rightarrow> nat \<Rightarrow> bool" where
  "roleRejected name fullText position =
     list_ex (\<lambda>pattern. regexTest pattern (substring 0 50 (afterText name fullText position)))
       roleRejectionPatterns"

definition stronglyAccepted :: "jsstring \<Rightarrow> nat \<Rightarrow> bool" where
  "stronglyAccepted fullText position =
     list_ex (\<lambda>pattern. regexTest pattern (beforeText fullText position)) strongAcceptancePatterns"

definition hasTitlePrefix :: "jsstring \<Rightarrow> bool" where
  "hasTitlePrefix name = regexTest titlePrefixPattern name"

definition capitalizedWord :: "jsstring \<Rightarrow> bool" where
  "capitalizedWord part =
     (case part of [] \<Rightarrow> False | c # cs \<Rightarrow> isUpper c \<and> cs \<noteq> [] \<and> list_all isLower cs)"

section \<open>Concrete inputs\<close>

text \<open>
  What \<open>detectEnhancedPII\<close> returns for the text \<open>a.b1@example.com\<close>: the email pattern
  matches the whole text, the username pattern matches \<open>b1\<close> at offset 2, and no other
  pattern matches.
\<close>

definition cxEmail :: entity where
  "cxEmail = \<lparr> etype = js ''EMAIL'', etext = js ''a.b1@example.com'', estart = 0, eend = 16,
               confidence = 0.98, ecategory = high \<rparr>"


text \<open>
  What the pattern scan of the server pushes for the text \<open>fax: 555-123-4567 12345\<close>, in
  the order of \<open>PII_PATTERNS\<close>: the phone number, the fax number that contains it, and the
  postal code.
\<close>

definition srvPhone :: entity where
  "srvPhone = \<lparr> etype = js ''PHONE_NUMBER'', etext = js ''555-123-4567'', estart = 5,
                eend = 17, confidence = 0.92, ecategory = high \<rparr>"

definition srvFax :: entity where
  "srvFax = \<lparr> etype = js ''FAX_NUMBER'', etext = js ''fax: 555-123-4567'', estart = 0,
              eend = 17, confidence = 0.90, ecategory = medium \<rparr>"

definition srvPostal :: entity where
  "srvPostal = \<lparr> etype = js ''POSTAL_CODE'', etext = js ''12345'', estart = 18, eend = 23,
                 confidence = 0.75, ecategory = low \<rparr>"

definition faxText :: jsstring where
  "faxText = js ''fax: 555-123-4567 12345''"

text \<open>
  The text \<open>a@b.co c@d.co\<close> with its two email entities, as the server scan types them
  (\<open>EMAIL_ADDRESS\<close>) and as \<open>detectEnhancedPII\<close> types them (\<open>EMAIL\<close>).
\<close>

definition twoEmails :: jsstring where
  "twoEmails = js ''a@b.co c@d.co''"

definition srvEmail1 :: entity where
  "srvEmail1 = \<lparr> etype = js ''EMAIL_ADDRESS'', etext = js ''a@b.co'', estart = 0, eend = 6,
                 confidence = 0.96, ecategory = high \<rparr>"

definition srvEmail2 :: entity where
  "srvEmail2 = \<lparr> etype = js ''EMAIL_ADDRESS'', etext = js ''c@d.co'', estart = 7, eend = 13,
                 confidence = 0.96, ecategory = high \<rparr>"

definition cliEmail1 :: entity where
  "cliEmail1 = \<lparr> etype = js ''EMAIL'', etext = js ''a@b.co'', estart = 0, eend = 6,
                 confidence = 0.98, ecategory = high \<rparr>"

definition cliEmail2 :: entity where
  "cliEmail2 = \<lparr> etype = js ''EMAIL'', etext = js ''c@d.co'', estart = 7, eend = 13,
                 confidence = 0.98, ecategory = high \<rparr>"

text \<open>
  The text \<open>john met Mary Jones and Alan Turing, a@b.co\<close> with the entities of
  \<open>detectEnhancedPII\<close> in the order in which they are pushed: the email, then the two names.
\<close>

definition namesText :: jsstring where
  "namesText = js ''john met Mary Jones and Alan Turing, a@b.co''"
definition cliEmail :: entity where
  "cliEmail = \<lparr> etype = js ''EMAIL'', etext = js ''a@b.co'', estart = 37, eend = 43,
                confidence = 0.98, ecategory = high \<rparr>"

definition cliMary :: entity where
  "cliMary = \<lparr> etype = js ''NAME'', etext = js ''Mary Jones'', estart = 9, eend = 19,
               confidence = 0.95, ecategory = high \<rparr>"

definition cliAlan :: entity where
  "cliAlan = \<lparr> etype = js ''NAME'', etext = js ''Alan Turing'', estart = 24, eend = 35,
               confidence = 0.95, ecategory = high \<rparr>"


text \<open>
  The text \<open>John Smith\<close>: the name pattern of \<open>detectEnhancedPII\<close> yields one NAME entity
  with the base confidence 0.95; a recognizer output for the same span with score 0.99.
\<close>

definition regexJohn :: entity where
  "regexJohn = \<lparr> etype = js ''NAME'', etext = js ''John Smith'', estart = 0, eend = 10,
                 confidence = 0.95, ecategory = high \<rparr>"

definition nerJohn :: nerOutput where
  "nerJohn = \<lparr> ngroup = js ''PER'', nscore = 0.99, nword = js ''John Smith'', nstart = 0,
               nend = 10 \<rparr>"

text \<open>
  Stand-ins for the parameters: a pattern scan that finds nothing, a recognizer that
  rejects, a recognizer that finds nobody, a recognizer whose only group is an
  organisation, a random source, and the scan result for the text with two emails.
\<close>

definition noEntities :: "jsstring \<Rightarrow> error + entity list" where
  "noEntities text = Inr []"

definition modelDown :: "jsstring \<Rightarrow> error + nerOutput list" where
  "modelDown text = Inl ModelFailure"

definition noPersons :: "jsstring \<Rightarrow> error + nerOutput list" where
  "noPersons text = Inr []"

definition nerDomain :: nerOutput where
  "nerDomain = \<lparr> ngroup = js ''ORG'', nscore = 0.62, nword = js ''b.co'', nstart = 2,
                 nend = 6 \<rparr>"

definition organisationsOnly :: "jsstring \<Rightarrow> error + nerOutput list" where
  "organisationsOnly text = Inr [nerDomain]"

definition noRandom :: "nat \<Rightarrow> jsstring" where
  "noRandom k = []"

definition twoEmailScan :: "jsstring \<Rightarrow> entity list" where
  "twoEmailScan text = [cliEmail1, cliEmail2]"

text \<open>
  The two texts of the name-filter examples, and a text in which a salutation precedes
  the name and a role word follows it.
\<close>

definition docText :: jsstring where
  "docText = js ''Document Type: John Smith''"

definition drText :: jsstring where
  "drText = js ''Dr. Jane Doe will see you now''"

definition dearText :: jsstring where
  "dearText = js ''Dear Mary Jones, manager''"

section \<open>Properties of the overlap filter\<close>

lemma overlapsExisting_half_open:
  assumes "wellFormed e" and "wellFormed x"
  shows "overlapsExisting e x = (estart e < eend x \<and> estart x < eend e)"
  using assms unfolding overlapsExisting_def wellFormed_def by auto

lemma findIndex_Some:
  "findIndex P xs = Some i \<Longrightarrow> i < length xs \<and> P (xs ! i) \<and> (\<forall>j<i. \<not> P (xs ! j))"
proof (induction xs arbitrary: i)
  case Nil
  then show ?case by simp
next
  case (Cons x xs)
  show ?case
  proof (cases "P x")
    case True
    with Cons.prems show ?thesis by simp
  next
    case False
    with Cons.prems obtain k where k: "findIndex P xs = Some k" "i = Suc k"
      by auto
    from Cons.IH [OF k(1)] False k(2) show ?thesis
      by (auto simp: less_Suc_eq_0_disj)
  qed
qed

lemma findIndex_None: "findIndex P xs = None \<Longrightarrow> \<not> list_ex P xs"
  by (induction xs) (auto split: if_splits)

lemma accepted_inv_mono: "accepted_inv s acc \<Longrightarrow> s \<le> t \<Longrightarrow> accepted_inv t acc"
  unfolding accepted_inv_def list_all_iff by auto

lemma filterStep_inv:
  assumes inv: "accepted_inv s acc" and wf: "wellFormed e" and le: "s \<le> estart e"
  shows "accepted_inv (estart e) (filterStep acc e)"
proof (cases "list_ex (overlapsExisting e) acc")
  case False
  then have no: "\<And>x. x \<in> set acc \<Longrightarrow> \<not> overlapsExisting e x"
    by (simp add: list_ex_iff)
  have wfa: "\<And>x. x \<in> set acc \<Longrightarrow> wellFormed x \<and> estart x \<le> s"
    using inv unfolding accepted_inv_def list_all_iff by auto
  have dj: "\<And>x. x \<in> set acc \<Longrightarrow> disjointSpans e x \<and> disjointSpans x e"
  proof -
    fix x assume x: "x \<in> set acc"
    from no [OF x] wfa [OF x] wf show "disjointSpans e x \<and> disjointSpans x e"
      unfolding overlapsExisting_def disjointSpans_def wellFormed_def by auto
  qed
  have notin: "e \<notin> set acc"
  proof
    assume "e \<in> set acc"
    from no [OF this] wf show False
      unfolding overlapsExisting_def wellFormed_def by auto
  qed
  have step: "filterStep acc e = acc @ [e]"
    using False by (simp add: filterStep_def)
  show ?thesis
    using inv wf le notin dj unfolding step accepted_inv_def list_all_iff
    by auto
next
  case True
  then obtain i where i: "findIndex (overlapsExisting e) acc = Some i"
    using findIndex_None [of "overlapsExisting e" acc] by (cases "findIndex (overlapsExisting e) acc") auto
  from findIndex_Some [OF i] have il: "i < length acc" and ov: "overlapsExisting e (acc ! i)"
    by auto
  show ?thesis
  proof (cases "confidence e > confidence (acc ! i)")
    case False
    then have "filterStep acc e = acc"
      using True i by (simp add: filterStep_def)
    then show ?thesis using accepted_inv_mono [OF inv le] by simp
  next
    case gt: True
    then have step: "filterStep acc e = acc[i := e]"
      using True i by (simp add: filterStep_def)
    have d: "distinct acc" using inv by (simp add: accepted_inv_def)
    let ?x = "acc ! i"
    have xin: "?x \<in> set acc" using il by simp
    have wfa: "\<And>y. y \<in> set acc \<Longrightarrow> wellFormed y \<and> estart y \<le> s"
      using inv unfolding accepted_inv_def list_all_iff by auto
    have pd: "\<And>a b. a \<in> set acc \<Longrightarrow> b \<in> set acc \<Longrightarrow> a \<noteq> b \<Longrightarrow> disjointSpans a b"
      using inv unfolding accepted_inv_def list_all_iff by auto
    have inx: "estart e < eend ?x"
      using ov wf wfa [OF xin] le unfolding overlapsExisting_def wellFormed_def by auto
    have others: "\<And>b. b \<in> set acc \<Longrightarrow> b \<noteq> ?x \<Longrightarrow> disjointSpans e b \<and> disjointSpans b e \<and> b \<noteq> e"
    proof -
      fix b assume b: "b \<in> set acc" "b \<noteq> ?x"
      from pd [OF xin b(1)] b(2) have "disjointSpans ?x b" by auto
      with inx wfa [OF b(1)] wfa [OF xin] le wf
      show "disjointSpans e b \<and> disjointSpans b e \<and> b \<noteq> e"
        unfolding disjointSpans_def wellFormed_def by auto
    qed
    have setupd: "set (acc[i := e]) = insert e (set acc - {?x})"
      using d il by (rule set_update_distinct)
    have dupd: "distinct (acc[i := e])"
      by (rule distinct_list_update [OF d]) (use others in auto)
    have wfe: "\<And>y. y \<in> set acc \<Longrightarrow> wellFormed y \<and> estart y \<le> estart e"
      using wfa le by force
    show ?thesis
      unfolding step accepted_inv_def list_all_iff setupd
      using dupd wf wfe pd others by (auto simp: setupd)
  qed
qed



section \<open>Decimal rendering and span keys\<close>

lemma unat_digitChar: "d < 10 \<Longrightarrow> unat (digitChar d) = 48 + d"
  by (simp add: digitChar_def unat_of_nat del: of_nat_add)

lemma isDigit_digitChar: "d < 10 \<Longrightarrow> isDigit (digitChar d)"
proof -
  assume d: "d < 10"
  have "unat (digitChar d) = 48 + d" using d by (rule unat_digitChar)
  then have "48 \<le> unat (digitChar d) \<and> unat (digitChar d) \<le> 57" using d by simp
  then show ?thesis
    by (simp add: isDigit_def word_le_nat_alt)
qed

lemma natToString_digits: "list_all isDigit (natToString n)"
proof (induction n rule: natToString.induct)
  case (1 n)
  show ?case
  proof (cases "n < 10")
    case True
    then show ?thesis by (simp add: natToString.simps [of n] isDigit_digitChar)
  next
    case False
    with 1 show ?thesis by (simp add: natToString.simps [of n] isDigit_digitChar)
  qed
qed

lemma natToString_nonempty: "natToString n \<noteq> []"
  by (subst natToString.simps) simp

lemma digitChar_inject: "a < 10 \<Longrightarrow> b < 10 \<Longrightarrow> digitChar a = digitChar b \<Longrightarrow> a = b"
  by (metis unat_digitChar add_left_cancel)

lemma natToString_inject: "natToString n = natToString m \<Longrightarrow> n = m"
proof (induction n arbitrary: m rule: natToString.induct)
  case (1 n)
  show ?case
  proof (cases "n < 10")
    case n: True
    show ?thesis
    proof (cases "m < 10")
      case True
      with n "1.prems" show ?thesis
        by (simp add: natToString.simps [of n] natToString.simps [of m] digitChar_inject)
    next
      case False
      with n "1.prems" show ?thesis
        using natToString_nonempty [of "m div 10"]
        by (simp add: natToString.simps [of n] natToString.simps [of m])
    qed
  next
    case n: False
    show ?thesis
    proof (cases "m < 10")
      case True
      with n "1.prems" show ?thesis
        using natToString_nonempty [of "n div 10"]
        by (simp add: natToString.simps [of n] natToString.simps [of m])
    next
      case False
      with n "1.prems" have eq: "natToString (n div 10) = natToString (m div 10)"
        "digitChar (n mod 10) = digitChar (m mod 10)"
        by (simp_all add: natToString.simps [of n] natToString.simps [of m])
      from "1.IH" [OF n eq(1)] have "n div 10 = m div 10" .
      moreover from eq(2) have "n mod 10 = m mod 10"
        by (intro digitChar_inject) simp_all
      ultimately show ?thesis by (metis div_mult_mod_eq)
    qed
  qed
qed

lemma split_at_separator:
  assumes "xs @ s # ys = xs' @ s # ys'" and "s \<notin> set xs" and "s \<notin> set xs'"
  shows "xs = xs' \<and> ys = ys'"
proof -
  have "takeWhile (\<lambda>c. c \<noteq> s) (xs @ s # ys) = xs"
    using assms(2) by (auto simp: takeWhile_tail)
  moreover have "takeWhile (\<lambda>c. c \<noteq> s) (xs' @ s # ys') = xs'"
    using assms(3) by (auto simp: takeWhile_tail)
  ultimately have "xs = xs'" using assms(1) by simp
  with assms(1) show ?thesis by simp
qed

lemma dash_not_digit: "\<not> isDigit 0x2D"
  by (simp add: isDigit_def)

lemma key_inject:
  assumes "natToString a @ js ''-'' @ natToString b = natToString c @ js ''-'' @ natToString d"
  shows "a = c \<and> b = d"
proof -
  have nd: "\<And>n. (0x2D :: jschar) \<notin> set (natToString n)"
    using natToString_digits dash_not_digit by (auto simp: list_all_iff)
  have "natToString a @ 0x2D # natToString b = natToString c @ 0x2D # natToString d"
    using assms by (simp add: js_def)
  from split_at_separator [OF this nd nd] show ?thesis
    by (auto dest: natToString_inject)
qed

lemma spanKey_inject: "spanKey a = spanKey b \<longleftrightarrow> estart a = estart b \<and> eend a = eend b"
  using key_inject [of "estart a" "eend a" "estart b" "eend b"]
  by (auto simp: spanKey_def)

section \<open>Properties of the Dashboard merge and of the filter as a whole\<close>

lemma keyed_map_of:
  "keyed m \<Longrightarrow> (map_of m k = None) = (find (\<lambda>x. spanKey x = k) (map snd m) = None)"
  by (induction m) (auto simp: keyed_def)

lemma keyed_mergeStep: "keyed m \<Longrightarrow> keyed (mergeStep m e)"
  by (simp add: keyed_def mergeStep_def)

lemma find_append:
  "find P (xs @ ys) = (case find P xs of None \<Rightarrow> find P ys | Some x \<Rightarrow> Some x)"
  by (induction xs) auto

lemma foldl_mergeStep_find:
  assumes "keyed m"
  shows "find (\<lambda>x. spanKey x = k) (map snd (foldl mergeStep m es)) =
         find (\<lambda>x. spanKey x = k) (map snd m @ es)"
  using assms
proof (induction es arbitrary: m)
  case Nil
  then show ?case by simp
next
  case (Cons e es)
  have k: "keyed (mergeStep m e)" using Cons.prems by (rule keyed_mergeStep)
  show ?case
  proof (cases "map_of m (spanKey e) = None")
    case True
    then have "mergeStep m e = m @ [(spanKey e, e)]" by (simp add: mergeStep_def)
    with Cons.IH [OF k] show ?thesis by simp
  next
    case False
    then have st: "mergeStep m e = m" by (simp add: mergeStep_def)
    from False keyed_map_of [OF Cons.prems, of "spanKey e"]
    obtain x where x: "find (\<lambda>x. spanKey x = spanKey e) (map snd m) = Some x" by auto
    show ?thesis
    proof (cases "spanKey e = k")
      case True
      with x Cons.IH [OF k] st show ?thesis by (simp add: find_append)
    next
      case False
      with Cons.IH [OF k] st show ?thesis by (simp add: find_append split: option.splits)
    qed
  qed
qed

lemma mergeEntities_first_wins:
  "find (\<lambda>x. spanKey x = k) (mergeEntities regexEntities nerNameEntities) =
   find (\<lambda>x. spanKey x = k) (regexEntities @ nerNameEntities)"
  unfolding mergeEntities_def
  using foldl_mergeStep_find [of "[]" k "regexEntities @ nerNameEntities"]
  by (simp add: keyed_def)

lemma foldl_mergeStep_distinct:
  assumes "keyed m" and "distinct (map fst m)"
  shows "keyed (foldl mergeStep m es) \<and> distinct (map fst (foldl mergeStep m es))"
  using assms
proof (induction es arbitrary: m)
  case Nil
  then show ?case by simp
next
  case (Cons e es)
  have "distinct (map fst (mergeStep m e))"
    using Cons.prems(2) by (auto simp: mergeStep_def map_of_eq_None_iff)
  with Cons.IH [OF keyed_mergeStep [OF Cons.prems(1)]] show ?case by simp
qed

lemma keyed_fst: "keyed m \<Longrightarrow> map fst m = map spanKey (map snd m)"
  by (induction m) (auto simp: keyed_def)

lemma mergeEntities_distinct_keys:
  "distinct (map spanKey (mergeEntities regexEntities nerNameEntities))"
proof -
  have "keyed (foldl mergeStep [] (regexEntities @ nerNameEntities)) \<and>
        distinct (map fst (foldl mergeStep [] (regexEntities @ nerNameEntities)))"
    by (rule foldl_mergeStep_distinct) (simp_all add: keyed_def)
  then show ?thesis
    unfolding mergeEntities_def using keyed_fst by metis
qed









section \<open>Properties of the two rewriting loops\<close>

lemma insort_key_snoc:
  "\<forall>y\<in>set ys. f y < f x \<Longrightarrow> insort_key f x ys = ys @ [x]"
  by (induction ys) auto

lemma sortDescending_rev:
  assumes "sorted_wrt (\<lambda>a b. estart a < estart b) es"
  shows "sortDescending es = rev es"
  using assms
proof (induction es)
  case Nil
  show ?case by (simp add: sortDescending_def)
next
  case (Cons e es)
  then have IH: "sort_key (\<lambda>e. - int (estart e)) es = rev es"
    by (simp add: sortDescending_def)
  have "\<forall>y\<in>set (rev es). - int (estart y) < - int (estart e)"
    using Cons.prems by auto
  then show ?case
    by (simp add: sortDescending_def IH insort_key_snoc)
qed

lemma canonicalList_strict:
  "canonicalList text es \<Longrightarrow> sorted_wrt (\<lambda>a b. estart a < estart b) es"
  unfolding canonicalList_def list_all_iff
  by (erule conjE, erule sorted_wrt_mono_rel [rotated]) auto

lemma redactLoop_snoc:
  "redactLoop m c t (xs @ [e]) = Inr out \<Longrightarrow>
   \<exists>t' r n. redactLoop m c t xs = Inr t' \<and> serverReplacement m e n = Inr r \<and>
            out = take (estart e) t' @ r @ drop (eend e) t'"
proof (induction xs arbitrary: c t)
  case Nil
  then show ?case by (auto simp: Let_def split: sum.splits)
next
  case (Cons x xs)
  then show ?case by (auto simp: Let_def split: sum.splits)
qed

lemma take_interleave_step:
  assumes "p \<le> estart e" and "estart e \<le> eend e" and "eend e \<le> length text"
  shows "take (estart e) (take (eend e) text @ rest) @ r @ drop (eend e) (take (eend e) text @ rest) =
         take p text @ take (estart e - p) (drop p text) @ r @ rest"
proof -
  have "take (estart e) (take (eend e) text @ rest) = take (estart e) text"
    using assms by (simp add: min_def)
  moreover have "drop (eend e) (take (eend e) text @ rest) = rest"
    using assms by simp
  moreover have "take p text @ take (estart e - p) (drop p text) = take (estart e) text"
    using assms(1) by (metis le_add_diff_inverse take_add)
  ultimately show ?thesis by simp
qed

lemma redactLoop_frame:
  assumes "list_all (\<lambda>e. estart e < eend e \<and> eend e \<le> length text \<and> p \<le> estart e) es"
    and "sorted_wrt (\<lambda>a b. eend a \<le> estart b) es"
    and "p \<le> length text"
    and "redactLoop m c text (rev es) = Inr out"
  shows "\<exists>rs. list_all2 (\<lambda>e r. \<exists>n. serverReplacement m e n = Inr r) es rs \<and>
              out = take p text @ interleave text p es rs"
  using assms
proof (induction es arbitrary: p out)
  case Nil
  then show ?case by simp
next
  case (Cons e es)
  from Cons.prems(4) have "redactLoop m c text (rev es @ [e]) = Inr out" by simp
  from redactLoop_snoc [OF this] obtain t' r n
    where t': "redactLoop m c text (rev es) = Inr t'"
      and r: "serverReplacement m e n = Inr r"
      and out: "out = take (estart e) t' @ r @ drop (eend e) t'" by blast
  have e: "p \<le> estart e" "estart e < eend e" "eend e \<le> length text"
    using Cons.prems(1) by simp_all
  have "list_all (\<lambda>x. estart x < eend x \<and> eend x \<le> length text \<and> eend e \<le> estart x) es"
    using Cons.prems(1,2) by (auto simp: list_all_iff)
  moreover have "sorted_wrt (\<lambda>a b. eend a \<le> estart b) es" using Cons.prems(2) by simp
  ultimately obtain rs
    where rs: "list_all2 (\<lambda>e r. \<exists>n. serverReplacement m e n = Inr r) es rs"
      "t' = take (eend e) text @ interleave text (eend e) es rs"
    using Cons.IH [OF _ _ e(3) t'] by blast
  have "out = take p text @ interleave text p (e # es) (r # rs)"
    unfolding out rs(2) using take_interleave_step [of p e "text"] e by simp
  with rs(1) r show ?case by (intro exI [of _ "r # rs"]) auto
qed

lemma dashLoop_snoc:
  "\<exists>j. dashLoop m idx rnd k t (xs @ [e]) =
         take (estart e) (dashLoop m idx rnd k t xs) @ fst (dashReplacement m idx rnd j e) @
         drop (eend e) (dashLoop m idx rnd k t xs)"
proof (induction xs arbitrary: k t)
  case Nil
  show ?case by (auto simp: Let_def split: prod.splits intro: exI [of _ k])
next
  case (Cons x xs)
  show ?case using Cons by (auto simp: Let_def split: prod.splits)
qed

lemma dashLoop_frame:
  assumes "list_all (\<lambda>e. estart e < eend e \<and> eend e \<le> length text \<and> p \<le> estart e) es"
    and "sorted_wrt (\<lambda>a b. eend a \<le> estart b) es"
    and "p \<le> length text"
  shows "\<exists>rs. list_all2 (\<lambda>e r. \<exists>j. r = fst (dashReplacement m idx rnd j e)) es rs \<and>
           dashLoop m idx rnd k text (rev es) = take p text @ interleave text p es rs"
  using assms
proof (induction es arbitrary: p)
  case Nil
  then show ?case by simp
next
  case (Cons e es)
  let ?t = "dashLoop m idx rnd k text (rev es)"
  from dashLoop_snoc [of m idx rnd k "text" "rev es" e] obtain j
    where out: "dashLoop m idx rnd k text (rev (e # es)) =
        take (estart e) ?t @ fst (dashReplacement m idx rnd j e) @ drop (eend e) ?t"
    by auto
  have e: "p \<le> estart e" "estart e < eend e" "eend e \<le> length text"
    using Cons.prems(1) by simp_all
  have "list_all (\<lambda>x. estart x < eend x \<and> eend x \<le> length text \<and> eend e \<le> estart x) es"
    using Cons.prems(1,2) by (auto simp: list_all_iff)
  moreover have "sorted_wrt (\<lambda>a b. eend a \<le> estart b) es" using Cons.prems(2) by simp
  ultimately obtain rs
    where rs: "list_all2 (\<lambda>e r. \<exists>j. r = fst (dashReplacement m idx rnd j e)) es rs"
      "?t = take (eend e) text @ interleave text (eend e) es rs"
    using Cons.IH [OF _ _ e(3)] by blast
  have "dashLoop m idx rnd k text (rev (e # es)) =
        take p text @ interleave text p (e # es) (fst (dashReplacement m idx rnd j e) # rs)"
    unfolding out rs(2) using take_interleave_step [of p e "text"] e by simp
  with rs(1) show ?case
    by (intro exI [of _ "fst (dashReplacement m idx rnd j e) # rs"]) auto
qed

lemma serverReplacement_total:
  "method \<noteq> js ''Contextual Masking'' \<Longrightarrow> \<exists>r. serverReplacement method entity n = Inr r"
  by (simp add: serverReplacement_def)

lemma redactLoop_total:
  "method \<noteq> js ''Contextual Masking'' \<Longrightarrow> \<exists>out. redactLoop method c t es = Inr out"
proof (induction es arbitrary: c t)
  case Nil
  show ?case by simp
next
  case (Cons e es)
  from serverReplacement_total [OF Cons.prems]
  obtain r where "serverReplacement method e
      ((case c (etype e) of None \<Rightarrow> 0 | Some n \<Rightarrow> n) + 1) = Inr r" by blast
  with Cons.IH [OF Cons.prems] show ?case by (simp add: Let_def)
qed

section \<open>Sequence numbers and the default branches\<close>

lemma smart_replacement:
  "serverReplacement (js ''Smart Placeholders'') e n = Inr (placeholder (etype e) n)"
  by (simp add: serverReplacement_def placeholder_def)

lemma redactLoop_numbering:
  "\<exists>t'. redactLoop (js ''Smart Placeholders'') c t pre = Inr t' \<and>
        redactLoop (js ''Smart Placeholders'') c t (pre @ [e]) =
          Inr (take (estart e) t' @
               placeholder (etype e)
                 ((case c (etype e) of None \<Rightarrow> 0 | Some n \<Rightarrow> n) +
                  length (filter (\<lambda>x. etype x = etype e) pre) + 1) @
               drop (eend e) t')"
proof (induction pre arbitrary: c t)
  case Nil
  show ?case by (simp add: Let_def smart_replacement)
next
  case (Cons x xs)
  let ?n = "(case c (etype x) of None \<Rightarrow> 0 | Some n \<Rightarrow> n) + 1"
  let ?c = "c(etype x \<mapsto> ?n)"
  let ?t = "take (estart x) t @ placeholder (etype x) ?n @ drop (eend x) t"
  from Cons [of ?c ?t] obtain t' where
    t': "redactLoop (js ''Smart Placeholders'') ?c ?t xs = Inr t'"
    and s: "redactLoop (js ''Smart Placeholders'') ?c ?t (xs @ [e]) =
          Inr (take (estart e) t' @
               placeholder (etype e)
                 ((case ?c (etype e) of None \<Rightarrow> 0 | Some n \<Rightarrow> n) +
                  length (filter (\<lambda>x. etype x = etype e) xs) + 1) @
               drop (eend e) t')" by blast
  have "(case ?c (etype e) of None \<Rightarrow> 0 | Some n \<Rightarrow> n) + length (filter (\<lambda>x. etype x = etype e) xs) =
        (case c (etype e) of None \<Rightarrow> 0 | Some n \<Rightarrow> n) +
        length (filter (\<lambda>x. etype x = etype e) (x # xs))"
    by (auto split: option.splits)
  with t' s show ?case
    by (simp add: Let_def smart_replacement)
qed

lemma numbersOfType_Cons:
  "numbersOfType t (e # es) (n # nums) =
     (if etype e = t then n # numbersOfType t es nums else numbersOfType t es nums)"
  by (simp add: numbersOfType_def)

lemma redactLoop_smart_frame:
  assumes "list_all (\<lambda>e. estart e < eend e \<and> eend e \<le> length text \<and> p \<le> estart e) es"
    and "sorted_wrt (\<lambda>a b. eend a \<le> estart b) es"
    and "p \<le> length text"
  shows "\<exists>nums. length nums = length es \<and>
           redactLoop (js ''Smart Placeholders'') c text (rev es) =
             Inr (take p text @
                  interleave text p es (map2 (\<lambda>e n. placeholder (etype e) n) es nums)) \<and>
           (\<forall>t. distinct (numbersOfType t es nums) \<and>
                set (numbersOfType t es nums) =
                  {(case c t of None \<Rightarrow> 0 | Some n \<Rightarrow> n) + 1 ..
                   (case c t of None \<Rightarrow> 0 | Some n \<Rightarrow> n) + length (filter (\<lambda>e. etype e = t) es)})"
  using assms
proof (induction es arbitrary: p)
  case Nil
  then show ?case by (simp add: numbersOfType_def)
next
  case (Cons e es)
  let ?base = "\<lambda>t. (case c t of None \<Rightarrow> 0 | Some n \<Rightarrow> n)"
  let ?n = "?base (etype e) + length (filter (\<lambda>x. etype x = etype e) es) + 1"
  have e: "p \<le> estart e" "estart e < eend e" "eend e \<le> length text"
    using Cons.prems(1) by simp_all
  have "list_all (\<lambda>x. estart x < eend x \<and> eend x \<le> length text \<and> eend e \<le> estart x) es"
    using Cons.prems(1,2) by (auto simp: list_all_iff)
  moreover have "sorted_wrt (\<lambda>a b. eend a \<le> estart b) es" using Cons.prems(2) by simp
  ultimately obtain nums where len: "length nums = length es"
    and t': "redactLoop (js ''Smart Placeholders'') c text (rev es) =
             Inr (take (eend e) text @
                  interleave text (eend e) es (map2 (\<lambda>e n. placeholder (etype e) n) es nums))"
    and perm: "\<And>t. distinct (numbersOfType t es nums) \<and>
                set (numbersOfType t es nums) =
                  {?base t + 1 .. ?base t + length (filter (\<lambda>e. etype e = t) es)}"
    using Cons.IH [OF _ _ e(3)] by blast
  let ?rest = "interleave text (eend e) es (map2 (\<lambda>e n. placeholder (etype e) n) es nums)"
  have cnt: "length (filter (\<lambda>x. etype x = etype e) (rev es)) =
             length (filter (\<lambda>x. etype x = etype e) es)"
    by (simp add: rev_filter [symmetric])
  from redactLoop_numbering [of c "text" "rev es" e] obtain t0
    where a: "redactLoop (js ''Smart Placeholders'') c text (rev es) = Inr t0"
      and b: "redactLoop (js ''Smart Placeholders'') c text (rev es @ [e]) =
          Inr (take (estart e) t0 @
               placeholder (etype e)
                 (?base (etype e) + length (filter (\<lambda>x. etype x = etype e) (rev es)) + 1) @
               drop (eend e) t0)" by blast
  from a t' have t0: "t0 = take (eend e) text @ ?rest" by simp
  from b have "redactLoop (js ''Smart Placeholders'') c text (rev (e # es)) =
          Inr (take (estart e) (take (eend e) text @ ?rest) @ placeholder (etype e) ?n @
               drop (eend e) (take (eend e) text @ ?rest))"
    unfolding t0 cnt by (simp only: rev.simps)
  then have out: "redactLoop (js ''Smart Placeholders'') c text (rev (e # es)) =
      Inr (take p text @
           interleave text p (e # es) (map2 (\<lambda>e n. placeholder (etype e) n) (e # es) (?n # nums)))"
    using take_interleave_step [of p e "text" ?rest "placeholder (etype e) ?n"] e by simp
  have "distinct (numbersOfType t (e # es) (?n # nums)) \<and>
        set (numbersOfType t (e # es) (?n # nums)) =
          {?base t + 1 .. ?base t + length (filter (\<lambda>x. etype x = t) (e # es))}" for t
  proof (cases "etype e = t")
    case True
    have "{?base t + 1 .. Suc (?base t + length (filter (\<lambda>x. etype x = t) es))} =
          insert (Suc (?base t + length (filter (\<lambda>x. etype x = t) es)))
            {?base t + 1 .. ?base t + length (filter (\<lambda>x. etype x = t) es)}"
      by (rule atLeastAtMostSuc_conv) simp
    with True perm [of t] show ?thesis by (simp add: numbersOfType_Cons)
  next
    case False
    with perm [of t] show ?thesis by (simp add: numbersOfType_Cons)
  qed
  with out len show ?case
    by (intro exI [of _ "?n # nums"]) simp
qed

lemma applyRedaction_smart:
  assumes "canonicalList text es"
  shows "\<exists>nums. length nums = length es \<and>
           applyRedaction text es (js ''Smart Placeholders'') =
             Inr (interleave text 0 es (map2 (\<lambda>e n. placeholder (etype e) n) es nums)) \<and>
           (\<forall>t. distinct (numbersOfType t es nums) \<and>
                set (numbersOfType t es nums) = {1 .. length (filter (\<lambda>e. etype e = t) es)})"
proof -
  have "sortDescending es = rev es"
    by (rule sortDescending_rev [OF canonicalList_strict [OF assms]])
  moreover have "list_all (\<lambda>e. estart e < eend e \<and> eend e \<le> length text \<and> 0 \<le> estart e) es"
    using assms by (simp add: canonicalList_def)
  moreover have "sorted_wrt (\<lambda>a b. eend a \<le> estart b) es"
    using assms by (simp add: canonicalList_def)
  ultimately show ?thesis
    using redactLoop_smart_frame [of "text" 0 es Map.empty]
    by (simp add: applyRedaction_def)
qed


lemma setIndices_other: "k \<notin> set (map spanKey es) \<Longrightarrow> setIndices m j es k = m k"
  by (induction es arbitrary: m j) auto

lemma setIndices_nth:
  "distinct (map spanKey es) \<Longrightarrow> i < length es \<Longrightarrow>
   setIndices m j es (spanKey (es ! i)) = Some (j + i + 1)"
proof (induction es arbitrary: m j i)
  case Nil
  then show ?case by simp
next
  case (Cons e es)
  show ?case
  proof (cases i)
    case 0
    with Cons.prems show ?thesis by (simp add: setIndices_other)
  next
    case (Suc i')
    have "setIndices (m(spanKey e \<mapsto> j + 1)) (j + 1) es (spanKey (es ! i')) =
          Some (j + 1 + i' + 1)"
      by (rule Cons.IH) (use Cons.prems Suc in auto)
    then show ?thesis using Suc by simp
  qed
qed

lemma distinct_nameEntitiesInOrder:
  assumes "distinct (map spanKey entities)"
  shows "distinct (map spanKey (nameEntitiesInOrder entities))"
proof -
  have "distinct (map spanKey (filter (\<lambda>e. etype e = js ''NAME'') entities))"
    using assms by (rule distinct_map_filter)
  then show ?thesis
    unfolding nameEntitiesInOrder_def sortAscending_def
    by (simp add: distinct_map)
qed

lemma nameIndexMap_nth:
  assumes "distinct (map spanKey entities)" and "i < length (nameEntitiesInOrder entities)"
  shows "nameIndexMap entities (spanKey (nameEntitiesInOrder entities ! i)) = Some (Suc i)"
  using setIndices_nth [OF distinct_nameEntitiesInOrder [OF assms(1)] assms(2), of Map.empty 0]
  by (simp add: nameIndexMap_def)

lemma nameEntitiesInOrder_type:
  "i < length (nameEntitiesInOrder entities) \<Longrightarrow> etype (nameEntitiesInOrder entities ! i) = js ''NAME''"
proof -
  assume "i < length (nameEntitiesInOrder entities)"
  then have "nameEntitiesInOrder entities ! i \<in> set (nameEntitiesInOrder entities)" by simp
  then show ?thesis by (simp add: nameEntitiesInOrder_def sortAscending_def)
qed

lemma js_distinct_methods:
  "js ''Smart Placeholders'' \<noteq> js ''Complete Removal''"
  "js ''Smart Placeholders'' \<noteq> js ''Tokenization''"
  "js ''Smart Placeholders'' \<noteq> js ''Masking''"
  by (simp_all add: js_def)

lemma unsupported_replacement:
  "method \<notin> set supportedMethods \<Longrightarrow>
   serverReplacement method entity entityNum = Inr (js ''[REDACTED]'')"
  by (simp add: supportedMethods_def serverReplacement_def)

lemma list_all2_const:
  "list_all2 (\<lambda>e r. r = x) es rs \<Longrightarrow> rs = replicate (length es) x"
  by (induction es rs rule: list_all2_induct) auto

lemma dashReplacement_default:
  "selectedMethod \<notin> set dashboardCases \<Longrightarrow>
   dashReplacement selectedMethod idx rnd k e = dashReplacement (js ''Smart Placeholders'') idx rnd k e"
  by (simp add: dashboardCases_def dashReplacement_def js_distinct_methods)

lemma dashLoop_default:
  "selectedMethod \<notin> set dashboardCases \<Longrightarrow>
   dashLoop selectedMethod idx rnd k t es = dashLoop (js ''Smart Placeholders'') idx rnd k t es"
  by (induction es arbitrary: k t) (simp_all add: dashReplacement_default)

section \<open>The pipelines on trivial inputs\<close>

lemma applyRedaction_Nil: "applyRedaction text [] method = Inr text"
  by (simp add: applyRedaction_def sortDescending_def)

lemma dashRedact_Nil: "dashRedact selectedMethod randomToken text [] = text"
  by (simp add: dashRedact_def sortDescending_def)

lemma overlapFilter_Nil: "overlapFilter [] = []"
  by (simp add: overlapFilter_def sortAscending_def)

lemma mergeEntities_Nil: "mergeEntities [] [] = []"
  by (simp add: mergeEntities_def)

lemma trim_nonempty: "trim text \<noteq> [] \<Longrightarrow> text \<noteq> []"
  by (auto simp: trim_def)

section \<open>One step of the filter loop\<close>

lemma halfOpenOverlap_iff:
  "wellFormed e \<Longrightarrow> wellFormed x \<Longrightarrow> overlapsExisting e x = halfOpenOverlap e x"
  unfolding halfOpenOverlap_def by (rule overlapsExisting_half_open)

lemma accepted_inv_unique_overlap:
  assumes inv: "accepted_inv s acc" and wf: "wellFormed e" and le: "s \<le> estart e"
    and x: "x \<in> set acc" "halfOpenOverlap e x"
    and y: "y \<in> set acc" "halfOpenOverlap e y"
  shows "x = y"
proof (rule ccontr)
  assume ne: "x \<noteq> y"
  from inv x(1) y(1) ne have "disjointSpans x y"
    unfolding accepted_inv_def list_all_iff by auto
  moreover from inv x(1) y(1) have "estart x \<le> s" "estart y \<le> s"
    unfolding accepted_inv_def list_all_iff by auto
  ultimately show False
    using x(2) y(2) le unfolding disjointSpans_def halfOpenOverlap_def by auto
qed

lemma accepted_inv_wf: "accepted_inv s acc \<Longrightarrow> x \<in> set acc \<Longrightarrow> wellFormed x"
  unfolding accepted_inv_def list_all_iff by auto

lemma filterStep_overlap:
  assumes inv: "accepted_inv s acc" and wf: "wellFormed e" and le: "s \<le> estart e"
    and x: "x \<in> set acc" "halfOpenOverlap e x"
  shows "if confidence e > confidence x
         then set (filterStep acc e) = insert e (set acc - {x}) \<and>
              length (filterStep acc e) = length acc
         else filterStep acc e = acc"
proof -
  have ovx: "overlapsExisting e x"
    using halfOpenOverlap_iff [OF wf accepted_inv_wf [OF inv x(1)]] x(2) by simp
  then have ex: "list_ex (overlapsExisting e) acc" using x(1) by (auto simp: list_ex_iff)
  then obtain i where i: "findIndex (overlapsExisting e) acc = Some i"
    using findIndex_None [of "overlapsExisting e" acc]
    by (cases "findIndex (overlapsExisting e) acc") auto
  from findIndex_Some [OF i] have il: "i < length acc" and ov: "overlapsExisting e (acc ! i)"
    by auto
  have yin: "acc ! i \<in> set acc" using il by simp
  have "halfOpenOverlap e (acc ! i)"
    using halfOpenOverlap_iff [OF wf accepted_inv_wf [OF inv yin]] ov by simp
  from accepted_inv_unique_overlap [OF inv wf le x yin this] have xi: "acc ! i = x" by simp
  have d: "distinct acc" using inv by (simp add: accepted_inv_def)
  show ?thesis
  proof (cases "confidence e > confidence x")
    case True
    then have "filterStep acc e = acc[i := e]"
      using ex i xi by (simp add: filterStep_def)
    with True set_update_distinct [OF d il, of e] xi show ?thesis by simp
  next
    case False
    then have "filterStep acc e = acc"
      using ex i xi by (simp add: filterStep_def)
    with False show ?thesis by simp
  qed
qed

lemma filterStep_no_overlap:
  assumes inv: "accepted_inv s acc" and wf: "wellFormed e"
    and no: "\<forall>x\<in>set acc. \<not> halfOpenOverlap e x"
  shows "filterStep acc e = acc @ [e]"
proof -
  have "\<not> list_ex (overlapsExisting e) acc"
    using no halfOpenOverlap_iff [OF wf accepted_inv_wf [OF inv]]
    by (auto simp: list_ex_iff)
  then show ?thesis by (simp add: filterStep_def)
qed

lemma foldl_filterStep_inv_last:
  assumes "accepted_inv s acc" and "sorted (map estart es)"
    and "\<forall>e\<in>set es. wellFormed e \<and> s \<le> estart e"
  shows "accepted_inv (if es = [] then s else estart (last es)) (foldl filterStep acc es)"
  using assms
proof (induction es arbitrary: s acc)
  case Nil
  then show ?case by simp
next
  case (Cons e es)
  have st: "accepted_inv (estart e) (filterStep acc e)"
    using Cons.prems by (intro filterStep_inv) auto
  have so: "sorted (map estart es)" using Cons.prems(2) by simp
  have al: "\<forall>x\<in>set es. wellFormed x \<and> estart e \<le> estart x"
    using Cons.prems(2,3) by auto
  from Cons.IH [OF st so al] show ?case by (cases es) simp_all
qed

lemma loop_state_inv:
  assumes wf: "list_all wellFormed cands" and split: "sortAscending cands = pre @ e # post"
  shows "accepted_inv (estart e) (foldl filterStep [] pre) \<and> wellFormed e"
proof -
  have so: "sorted (map estart (pre @ e # post))"
    unfolding split [symmetric] by (simp add: sortAscending_def)
  have "set (sortAscending cands) = set cands" by (simp add: sortAscending_def)
  with wf split have all: "\<forall>x\<in>set (pre @ e # post). wellFormed x"
    by (simp add: list_all_iff)
  have "accepted_inv (if pre = [] then 0 else estart (last pre)) (foldl filterStep [] pre)"
  proof (rule foldl_filterStep_inv_last)
    show "accepted_inv 0 []" by (simp add: accepted_inv_def)
    show "sorted (map estart pre)" using so by (simp add: sorted_append)
    show "\<forall>e\<in>set pre. wellFormed e \<and> 0 \<le> estart e" using all by simp
  qed
  moreover have "(if pre = [] then 0 else estart (last pre)) \<le> estart e"
    using so by (auto simp: sorted_append)
  ultimately have "accepted_inv (estart e) (foldl filterStep [] pre)"
    by (rule accepted_inv_mono)
  with all show ?thesis by simp
qed

section \<open>The pattern of a name part\<close>

lemma run_step:
  fixes S :: "nat set" and Q :: "nat \<Rightarrow> bool"
  shows "(\<exists>i\<in>S \<union> {Suc i | i. i \<in> S \<and> i < L \<and> Q i}.
            i \<le> j \<and> j \<le> i + n \<and> (\<forall>k. i \<le> k \<and> k < j \<longrightarrow> k < L \<and> Q k)) =
         (\<exists>i\<in>S. i \<le> j \<and> j \<le> i + Suc n \<and> (\<forall>k. i \<le> k \<and> k < j \<longrightarrow> k < L \<and> Q k))"
proof
  assume "\<exists>i\<in>S \<union> {Suc i | i. i \<in> S \<and> i < L \<and> Q i}.
            i \<le> j \<and> j \<le> i + n \<and> (\<forall>k. i \<le> k \<and> k < j \<longrightarrow> k < L \<and> Q k)"
  then obtain i where i: "i \<in> S \<or> (\<exists>i'. i = Suc i' \<and> i' \<in> S \<and> i' < L \<and> Q i')"
    and le: "i \<le> j" "j \<le> i + n"
    and run: "\<forall>k. i \<le> k \<and> k < j \<longrightarrow> k < L \<and> Q k" by blast
  from i show "\<exists>i\<in>S. i \<le> j \<and> j \<le> i + Suc n \<and> (\<forall>k. i \<le> k \<and> k < j \<longrightarrow> k < L \<and> Q k)"
  proof
    assume "i \<in> S"
    with le run show ?thesis by (intro bexI [of _ i]) auto
  next
    assume "\<exists>i'. i = Suc i' \<and> i' \<in> S \<and> i' < L \<and> Q i'"
    then obtain i' where i': "i = Suc i'" "i' \<in> S" "i' < L" "Q i'" by blast
    have "\<forall>k. i' \<le> k \<and> k < j \<longrightarrow> k < L \<and> Q k"
    proof (intro allI impI)
      fix k assume k: "i' \<le> k \<and> k < j"
      show "k < L \<and> Q k"
      proof (cases "k = i'")
        case True
        with i' show ?thesis by simp
      next
        case False
        with k i'(1) have "i \<le> k \<and> k < j" by simp
        with run show ?thesis by blast
      qed
    qed
    with i' le show ?thesis by (intro bexI [of _ i']) auto
  qed
next
  assume "\<exists>i\<in>S. i \<le> j \<and> j \<le> i + Suc n \<and> (\<forall>k. i \<le> k \<and> k < j \<longrightarrow> k < L \<and> Q k)"
  then obtain i where i: "i \<in> S" and le: "i \<le> j" "j \<le> i + Suc n"
    and run: "\<forall>k. i \<le> k \<and> k < j \<longrightarrow> k < L \<and> Q k" by blast
  show "\<exists>i\<in>S \<union> {Suc i | i. i \<in> S \<and> i < L \<and> Q i}.
            i \<le> j \<and> j \<le> i + n \<and> (\<forall>k. i \<le> k \<and> k < j \<longrightarrow> k < L \<and> Q k)"
  proof (cases "j \<le> i + n")
    case True
    with i le run show ?thesis by (intro bexI [of _ i]) auto
  next
    case False
    with le have j: "j = Suc (i + n)" by simp
    then have "i \<le> i \<and> i < j" by simp
    with run have "i < L \<and> Q i" by blast
    with i j run show ?thesis by (intro bexI [of _ "Suc i"]) auto
  qed
qed

lemma set_closure_char:
  "set (closure n (matchFrom (RChar P) s) ps) =
     {j. \<exists>i\<in>set ps. i \<le> j \<and> j \<le> i + n \<and> (\<forall>k. i \<le> k \<and> k < j \<longrightarrow> k < length s \<and> P (s ! k))}"
proof (induction n arbitrary: ps)
  case 0
  show ?case by auto
next
  case (Suc n)
  have step: "set (remdups (ps @ concat (map (matchFrom (RChar P) s) ps))) =
        set ps \<union> {Suc i | i. i \<in> set ps \<and> i < length s \<and> P (s ! i)}"
    by auto
  show ?case
    unfolding closure.simps Suc.IH step
    using run_step [of "set ps" "length s" "\<lambda>k. P (s ! k)" _ n]
    by (intro Collect_cong) simp
qed

lemma set_matchFrom_star_char:
  assumes "i \<le> length s"
  shows "set (matchFrom (RStar (RChar P)) s i) =
     {j. i \<le> j \<and> (\<forall>k. i \<le> k \<and> k < j \<longrightarrow> k < length s \<and> P (s ! k))}"
proof -
  have bound: "j \<le> i + Suc (length s)"
    if "i \<le> j" and run: "\<forall>k. i \<le> k \<and> k < j \<longrightarrow> k < length s \<and> P (s ! k)" for j
  proof (cases "i = j")
    case True
    then show ?thesis by simp
  next
    case False
    with that(1) have "i \<le> j - 1 \<and> j - 1 < j" by auto
    with run have "j - 1 < length s" by blast
    then show ?thesis by simp
  qed
  have "set (matchFrom (RStar (RChar P)) s i) =
      {j. \<exists>i'\<in>set [i]. i' \<le> j \<and> j \<le> i' + Suc (length s) \<and>
             (\<forall>k. i' \<le> k \<and> k < j \<longrightarrow> k < length s \<and> P (s ! k))}"
    by (simp only: matchFrom.simps set_closure_char)
  also have "\<dots> = {j. i \<le> j \<and> (\<forall>k. i \<le> k \<and> k < j \<longrightarrow> k < length s \<and> P (s ! k))}"
    using bound by auto
  finally show ?thesis .
qed

lemma set_matchFrom_seq:
  "set (matchFrom (RSeq a b) s i) = (\<Union>j\<in>set (matchFrom a s i). set (matchFrom b s j))"
  by simp

lemma matchFrom_nonempty: "(matchFrom r s i \<noteq> []) = (\<exists>j. j \<in> set (matchFrom r s i))"
  by (cases "matchFrom r s i") auto

lemma matchesBetween_iff:
  "matchesBetween r s i n = (\<exists>k\<le>n. matchFrom r s (i + k) \<noteq> [])"
proof (induction n arbitrary: i)
  case 0
  show ?case by simp
next
  case (Suc n)
  show ?case
  proof
    assume "matchesBetween r s i (Suc n)"
    then consider "matchFrom r s i \<noteq> []" | "matchesBetween r s (Suc i) n" by auto
    then show "\<exists>k\<le>Suc n. matchFrom r s (i + k) \<noteq> []"
    proof cases
      case 1
      then show ?thesis by (intro exI [of _ 0]) simp
    next
      case 2
      with Suc [of "Suc i"] obtain k where "k \<le> n" "matchFrom r s (Suc i + k) \<noteq> []" by blast
      then show ?thesis by (intro exI [of _ "Suc k"]) simp
    qed
  next
    assume "\<exists>k\<le>Suc n. matchFrom r s (i + k) \<noteq> []"
    then obtain k where k: "k \<le> Suc n" "matchFrom r s (i + k) \<noteq> []" by blast
    show "matchesBetween r s i (Suc n)"
    proof (cases k)
      case 0
      with k show ?thesis by simp
    next
      case (Suc k')
      with k have "k' \<le> n" "matchFrom r s (Suc i + k') \<noteq> []" by simp_all
      with Suc.IH [of "Suc i"] show ?thesis by auto
    qed
  qed
qed

lemma regexTest_anchored:
  "regexTest (RSeq RBegin r) s = (matchFrom r s 0 \<noteq> [])"
proof -
  have "\<And>k. (matchFrom (RSeq RBegin r) s k \<noteq> []) = (k = 0 \<and> matchFrom r s 0 \<noteq> [])"
    by auto
  then show ?thesis
    unfolding regexTest_def matchesBetween_iff by auto
qed

lemma namePartPattern_unfold:
  "namePartPattern =
     RSeq RBegin (RSeq (RChar isUpper)
       (RSeq (RSeq (RChar isLower) (RStar (RChar isLower))) (RSeq REnd REps)))"
  by (simp add: namePartPattern_def seqs_def plus_def)

lemma set_matchFrom_char:
  "set (matchFrom (RChar P) s i) = (if i < length s \<and> P (s ! i) then {Suc i} else {})"
  by simp

lemma set_matchFrom_end: "set (matchFrom (RSeq REnd REps) s j) = (if j = length s then {j} else {})"
  by simp

lemma namePart_positions:
  "regexTest namePartPattern part =
     (0 < length part \<and> isUpper (part ! 0) \<and> 1 < length part \<and> isLower (part ! 1) \<and>
      (\<forall>k. 2 \<le> k \<and> k < length part \<longrightarrow> isLower (part ! k)))"
proof -
  have star: "set (matchFrom (RStar (RChar isLower)) part 2) =
      {j. 2 \<le> j \<and> (\<forall>k. 2 \<le> k \<and> k < j \<longrightarrow> k < length part \<and> isLower (part ! k))}"
    if "1 < length part"
    using that by (intro set_matchFrom_star_char) simp
  have "regexTest namePartPattern part =
      (\<exists>j. j \<in> (\<Union>j1\<in>set (matchFrom (RChar isUpper) part 0).
                 \<Union>j2\<in>set (matchFrom (RChar isLower) part j1).
                 \<Union>j3\<in>set (matchFrom (RStar (RChar isLower)) part j2).
                   set (matchFrom (RSeq REnd REps) part j3)))"
    unfolding namePartPattern_unfold regexTest_anchored matchFrom_nonempty set_matchFrom_seq
    by (simp only: UN_simps SUP_UNION)
  also have "\<dots> = (0 < length part \<and> isUpper (part ! 0) \<and> 1 < length part \<and> isLower (part ! 1) \<and>
      (\<exists>j3\<in>set (matchFrom (RStar (RChar isLower)) part 2). j3 = length part))"
    unfolding set_matchFrom_char set_matchFrom_end
    by (auto simp: numeral_2_eq_2 simp del: matchFrom.simps split: if_splits)
  also have "\<dots> = (0 < length part \<and> isUpper (part ! 0) \<and> 1 < length part \<and> isLower (part ! 1) \<and>
      (\<forall>k. 2 \<le> k \<and> k < length part \<longrightarrow> isLower (part ! k)))"
    using star by (auto simp del: matchFrom.simps)
  finally show ?thesis .
qed

lemma regexTest_namePartPattern:
  "regexTest namePartPattern part =
     (\<exists>c cs. part = c # cs \<and> isUpper c \<and> cs \<noteq> [] \<and> list_all isLower cs)"
proof (cases part)
  case Nil
  then show ?thesis by (simp add: namePart_positions)
next
  case (Cons c cs)
  show ?thesis
  proof (cases cs)
    case Nil
    with Cons show ?thesis by (simp add: namePart_positions)
  next
    case (Cons d ds)
    have "(\<forall>k. 2 \<le> k \<and> k < length (c # d # ds) \<longrightarrow> isLower ((c # d # ds) ! k)) =
          list_all isLower ds"
    proof
      assume a: "\<forall>k. 2 \<le> k \<and> k < length (c # d # ds) \<longrightarrow> isLower ((c # d # ds) ! k)"
      show "list_all isLower ds"
        unfolding list_all_length
      proof (intro allI impI)
        fix n assume "n < length ds"
        with a [rule_format, of "Suc (Suc n)"] show "isLower (ds ! n)" by simp
      qed
    next
      assume a: "list_all isLower ds"
      show "\<forall>k. 2 \<le> k \<and> k < length (c # d # ds) \<longrightarrow> isLower ((c # d # ds) ! k)"
      proof (intro allI impI)
        fix k assume k: "2 \<le> k \<and> k < length (c # d # ds)"
        then obtain n where n: "k = Suc (Suc n)" "n < length ds"
          by (cases k; cases "k - 1") auto
        with a show "isLower ((c # d # ds) ! k)" by (simp add: list_all_length)
      qed
    qed
    with \<open>part = c # cs\<close> Cons show ?thesis
      by (simp add: namePart_positions)
  qed
qed


lemma capitalizedWord_iff: "regexTest namePartPattern part = capitalizedWord part"
  unfolding regexTest_namePartPattern capitalizedWord_def by (cases part) auto

lemma john_smith_rejected: "\<not> isValidPersonName (js ''John Smith'') docText 15"
  by code_simp

lemma dr_jane_doe_accepted: "isValidPersonName (js ''Dr. Jane Doe'') drText 0"
  by code_simp

lemma john_smith_document_rejected: "documentRejected (js ''John Smith'') docText 15"
  by code_simp

lemma mary_jones_reaches_structure: "\<not> documentRejected (js ''Mary Jones'') namesText 9 \<and>
   \<not> roleRejected (js ''Mary Jones'') namesText 9 \<and>
   \<not> stronglyAccepted namesText 9 \<and> \<not> hasTitlePrefix (js ''Mary Jones'')"
  by code_simp

lemma mary_jones_parts: "splitWhitespace (trim (js ''Mary Jones'')) = [js ''Mary'', js ''Jones'']"
  by code_simp

lemma dr_jane_doe_title: "\<not> documentRejected (js ''Dr. Jane Doe'') drText 0 \<and>
   \<not> roleRejected (js ''Dr. Jane Doe'') drText 0 \<and> hasTitlePrefix (js ''Dr. Jane Doe'')"
  by code_simp

lemma mary_jones_manager:
  "\<not> documentRejected (js ''Mary Jones'') dearText 5 \<and>
   roleRejected (js ''Mary Jones'') dearText 5 \<and> stronglyAccepted dearText 5"
  by code_simp

section \<open>C1: non-overlap of the canonical entity list\<close>




section \<open>C2: placeholder numbering\<close>

text \<open>
  C2, as the code has it.  Under Smart Placeholders the server replaces each entity of a
  canonical list by \<open>[<TYPE>_<nn>]\<close>, the number zero-padded to two digits, and the
  numbers given to the entities of one type are 1 up to the count of the entities of that
  type, each used once, whatever entities of other types the list holds.  Which entity of
  a type gets which of these numbers is not part of the statement.  The Dashboard numbers
  NAME entities only: from an index map built from the entity list before any rewriting,
  the NAME entity at position \<open>i\<close> (counting from 0) in ascending start order is replaced
  by \<open>[NAME_<i+1>]\<close>, unpadded, and an entity of any other type by the unnumbered
  \<open>[<TYPE>]\<close>.
\<close>

theorem smart_placeholder_numbering:
  "(canonicalList text es \<longrightarrow>
      (\<exists>nums. length nums = length es \<and>
         applyRedaction text es (js ''Smart Placeholders'') =
           Inr (interleave text 0 es
                  (map2 (\<lambda>e n. js ''['' @ etype e @ js ''_'' @
                                 padStart 2 0x30 (natToString n) @ js '']'') es nums)) \<and>
         (\<forall>t. distinct (numbersOfType t es nums) \<and>
              set (numbersOfType t es nums) = {1 .. length (filter (\<lambda>e. etype e = t) es)}))) \<and>
   (distinct (map spanKey entities) \<longrightarrow>
      (\<forall>i < length (nameEntitiesInOrder entities).
         fst (dashReplacement (js ''Smart Placeholders'') (nameIndexMap entities) randomToken k
                (nameEntitiesInOrder entities ! i)) =
         js ''[NAME_'' @ natToString (Suc i) @ js '']'')) \<and>
   (etype entity \<noteq> js ''NAME'' \<longrightarrow>
      fst (dashReplacement (js ''Smart Placeholders'') indexMap randomToken k entity) =
      js ''['' @ etype entity @ js '']'')"
proof (intro conjI impI allI)
  assume "canonicalList text es"
  from applyRedaction_smart [OF this]
  show "\<exists>nums. length nums = length es \<and>
         applyRedaction text es (js ''Smart Placeholders'') =
           Inr (interleave text 0 es
                  (map2 (\<lambda>e n. js ''['' @ etype e @ js ''_'' @
                                 padStart 2 0x30 (natToString n) @ js '']'') es nums)) \<and>
         (\<forall>t. distinct (numbersOfType t es nums) \<and>
              set (numbersOfType t es nums) = {1 .. length (filter (\<lambda>e. etype e = t) es)})"
    unfolding placeholder_def .
next
  fix i
  assume d: "distinct (map spanKey entities)" and i: "i < length (nameEntitiesInOrder entities)"
  show "fst (dashReplacement (js ''Smart Placeholders'') (nameIndexMap entities) randomToken k
                (nameEntitiesInOrder entities ! i)) =
         js ''[NAME_'' @ natToString (Suc i) @ js '']''"
    using nameIndexMap_nth [OF d i] nameEntitiesInOrder_type [OF i] js_distinct_methods
    by (simp add: dashReplacement_def)
next
  assume "etype entity \<noteq> js ''NAME''"
  then show "fst (dashReplacement (js ''Smart Placeholders'') indexMap randomToken k entity) =
      js ''['' @ etype entity @ js '']''"
    using js_distinct_methods by (simp add: dashReplacement_def)
qed

text \<open>
  The theorem at concrete inputs: on the server the two emails of \<open>a@b.co c@d.co\<close> get
  the numbers 1 and 2, one each; on the Dashboard the second of two NAME entities gets
  \<open>[NAME_2]\<close> and the email gets \<open>[EMAIL]\<close>.
\<close>

theorem smart_placeholder_numbering_witness:
  "canonicalList twoEmails [srvEmail1, srvEmail2] \<and>
   (\<exists>m n. m \<noteq> n \<and> m \<in> {1, 2} \<and> n \<in> {1, 2} \<and>
      applyRedaction twoEmails [srvEmail1, srvEmail2] (js ''Smart Placeholders'') =
        Inr (js ''[EMAIL_ADDRESS_'' @ padStart 2 0x30 (natToString m) @ js ''] [EMAIL_ADDRESS_'' @
             padStart 2 0x30 (natToString n) @ js '']'')) \<and>
   distinct (map spanKey [cliEmail, cliMary, cliAlan]) \<and>
   nameEntitiesInOrder [cliEmail, cliMary, cliAlan] = [cliMary, cliAlan] \<and>
   fst (dashReplacement (js ''Smart Placeholders'') (nameIndexMap [cliEmail, cliMary, cliAlan])
          (\<lambda>k. []) 0 cliAlan) = js ''[NAME_2]'' \<and>
   etype cliEmail \<noteq> js ''NAME'' \<and>
   fst (dashReplacement (js ''Smart Placeholders'') (nameIndexMap [cliEmail, cliMary, cliAlan])
          (\<lambda>k. []) 0 cliEmail) = js ''[EMAIL]''"
proof -
  let ?es = "[cliEmail, cliMary, cliAlan]"
  let ?srv = "[srvEmail1, srvEmail2]"
  have d: "distinct (map spanKey ?es)"
    by (simp add: spanKey_def natToString.simps digitChar_def cliEmail_def cliMary_def
        cliAlan_def js_def)
  have n: "nameEntitiesInOrder ?es = [cliMary, cliAlan]"
    by (simp add: nameEntitiesInOrder_def sortAscending_def cliEmail_def cliMary_def
        cliAlan_def js_def)
  have ty: "etype cliEmail \<noteq> js ''NAME''"
    by (simp add: cliEmail_def js_def)
  have can: "canonicalList twoEmails ?srv"
    by (simp add: canonicalList_def twoEmails_def srvEmail1_def srvEmail2_def js_def)
  note inst = smart_placeholder_numbering
    [of twoEmails ?srv ?es "\<lambda>k. []" 0 cliEmail "nameIndexMap ?es"]
  from inst d have "\<forall>i < length (nameEntitiesInOrder ?es).
         fst (dashReplacement (js ''Smart Placeholders'') (nameIndexMap ?es) (\<lambda>k. []) 0
                (nameEntitiesInOrder ?es ! i)) =
         js ''[NAME_'' @ natToString (Suc i) @ js '']''" by blast
  moreover have "1 < length (nameEntitiesInOrder ?es)" by (simp add: n)
  ultimately have "fst (dashReplacement (js ''Smart Placeholders'') (nameIndexMap ?es) (\<lambda>k. []) 0
                (nameEntitiesInOrder ?es ! 1)) =
         js ''[NAME_'' @ natToString (Suc 1) @ js '']''" by blast
  then have a: "fst (dashReplacement (js ''Smart Placeholders'') (nameIndexMap ?es) (\<lambda>k. []) 0
                  cliAlan) = js ''[NAME_2]''"
    unfolding n by (simp add: natToString.simps digitChar_def js_def)
  from inst ty have b: "fst (dashReplacement (js ''Smart Placeholders'') (nameIndexMap ?es)
          (\<lambda>k. []) 0 cliEmail) = js ''[EMAIL]''"
    by (simp add: cliEmail_def js_def)
  from inst can obtain nums where len: "length nums = length ?srv"
    and out: "applyRedaction twoEmails ?srv (js ''Smart Placeholders'') =
           Inr (interleave twoEmails 0 ?srv
                  (map2 (\<lambda>e n. js ''['' @ etype e @ js ''_'' @
                                 padStart 2 0x30 (natToString n) @ js '']'') ?srv nums))"
    and perm: "\<forall>t. distinct (numbersOfType t ?srv nums) \<and>
              set (numbersOfType t ?srv nums) = {1 .. length (filter (\<lambda>e. etype e = t) ?srv)}"
    by blast
  from len obtain m n where nums: "nums = [m, n]"
    by (cases nums; cases "tl nums"; cases "tl (tl nums)") auto
  from perm have "distinct (numbersOfType (js ''EMAIL_ADDRESS'') ?srv nums) \<and>
      set (numbersOfType (js ''EMAIL_ADDRESS'') ?srv nums) =
        {1 .. length (filter (\<lambda>e. etype e = js ''EMAIL_ADDRESS'') ?srv)}" by blast
  moreover have "numbersOfType (js ''EMAIL_ADDRESS'') ?srv [m, n] = [m, n]"
    by (simp add: numbersOfType_def srvEmail1_def srvEmail2_def)
  moreover have "length (filter (\<lambda>e. etype e = js ''EMAIL_ADDRESS'') ?srv) = 2"
    by (simp add: srvEmail1_def srvEmail2_def)
  ultimately have dist: "distinct [m, n]" and range: "set [m, n] = {1 .. 2}"
    unfolding nums by simp_all
  have "m \<in> set [m, n]" and "n \<in> set [m, n]" by simp_all
  then have "m \<in> {1 .. 2}" and "n \<in> {1 .. 2}" unfolding range by blast+
  then have mn: "m \<noteq> n \<and> m \<in> {1, 2} \<and> n \<in> {1, 2}"
    using dist by auto
  from out have "applyRedaction twoEmails ?srv (js ''Smart Placeholders'') =
        Inr (js ''[EMAIL_ADDRESS_'' @ padStart 2 0x30 (natToString m) @ js ''] [EMAIL_ADDRESS_'' @
             padStart 2 0x30 (natToString n) @ js '']'')"
    unfolding nums by (simp add: twoEmails_def srvEmail1_def srvEmail2_def js_def)
  with mn have srv: "\<exists>m n. m \<noteq> n \<and> m \<in> {1, 2} \<and> n \<in> {1, 2} \<and>
      applyRedaction twoEmails ?srv (js ''Smart Placeholders'') =
        Inr (js ''[EMAIL_ADDRESS_'' @ padStart 2 0x30 (natToString m) @ js ''] [EMAIL_ADDRESS_'' @
             padStart 2 0x30 (natToString n) @ js '']'')" by blast
  from can srv d n a ty b show ?thesis by blast
qed

text \<open>
  C2 as stated fails for an input with two emails: the server numbers the earlier email
  02 and the later one 01, and the Dashboard gives both the unnumbered \<open>[EMAIL]\<close>.
\<close>

theorem two_emails_numbering_counterexample:
  "applyRedaction twoEmails [srvEmail1, srvEmail2] (js ''Smart Placeholders'') =
     Inr (js ''[EMAIL_ADDRESS_02] [EMAIL_ADDRESS_01]'') \<and>
   dashRedact (js ''Smart Placeholders'') (\<lambda>k. []) twoEmails [cliEmail1, cliEmail2] =
     js ''[EMAIL] [EMAIL]''"
  by (simp add: applyRedaction_def dashRedact_def dashReplacement_def sortDescending_def
      serverReplacement_def padStart_def natToString.simps digitChar_def twoEmails_def
      srvEmail1_def srvEmail2_def cliEmail1_def cliEmail2_def js_def)

section \<open>C3: entity-free regions are preserved\<close>

text \<open>
  C3.  For every text and every canonical entity list over it (start-ascending,
  non-overlapping, every span non-empty and inside the text), the redacted text of either
  engine is the original text read left to right with each entity span replaced by a
  replacement the strategy computes for that entity: every stretch of the text outside
  the spans is copied unchanged and in order.  This holds for every strategy name.  The
  server returns a text for every strategy other than Contextual Masking, whose mask
  functions can raise on an entity text the pattern scan never produces; the Dashboard
  always returns a text.
\<close>

theorem redaction_preserves_entity_free_regions:
  "canonicalList text es \<longrightarrow>
     (\<forall>out. applyRedaction text es method = Inr out \<longrightarrow>
        (\<exists>rs. list_all2 (\<lambda>e r. \<exists>n. serverReplacement method e n = Inr r) es rs \<and>
              out = interleave text 0 es rs)) \<and>
     (method \<noteq> js ''Contextual Masking'' \<longrightarrow> (\<exists>out. applyRedaction text es method = Inr out)) \<and>
     (\<exists>rs. list_all2
             (\<lambda>e r. \<exists>j. r = fst (dashReplacement selectedMethod (nameIndexMap es) randomToken j e))
             es rs \<and>
           dashRedact selectedMethod randomToken text es = interleave text 0 es rs)"
proof (intro impI conjI allI)
  assume can: "canonicalList text es"
  then have rev: "sortDescending es = rev es"
    by (intro sortDescending_rev canonicalList_strict)
  from can have la: "list_all (\<lambda>e. estart e < eend e \<and> eend e \<le> length text \<and> 0 \<le> estart e) es"
    and sw: "sorted_wrt (\<lambda>a b. eend a \<le> estart b) es"
    by (simp_all add: canonicalList_def)
  {
    fix out assume "applyRedaction text es method = Inr out"
    then have "redactLoop method Map.empty text (rev es) = Inr out"
      by (simp add: applyRedaction_def rev)
    from redactLoop_frame [OF la sw _ this]
    show "\<exists>rs. list_all2 (\<lambda>e r. \<exists>n. serverReplacement method e n = Inr r) es rs \<and>
              out = interleave text 0 es rs" by simp
  }
  {
    assume "method \<noteq> js ''Contextual Masking''"
    then show "\<exists>out. applyRedaction text es method = Inr out"
      unfolding applyRedaction_def by (rule redactLoop_total)
  }
  from dashLoop_frame [OF la sw, of selectedMethod "nameIndexMap es" randomToken 0]
  show "\<exists>rs. list_all2
             (\<lambda>e r. \<exists>j. r = fst (dashReplacement selectedMethod (nameIndexMap es) randomToken j e))
             es rs \<and>
           dashRedact selectedMethod randomToken text es = interleave text 0 es rs"
    by (simp add: dashRedact_def rev)
qed

text \<open>
  The theorem at a concrete input: the text \<open>fax: 555-123-4567 12345\<close> with the phone number
  and the postal code, under Smart Placeholders on the server and Masking on the Dashboard.
\<close>

theorem redaction_preserves_entity_free_regions_witness:
  "canonicalList faxText [srvPhone, srvPostal] \<and>
   js ''Smart Placeholders'' \<noteq> js ''Contextual Masking'' \<and>
   applyRedaction faxText [srvPhone, srvPostal] (js ''Smart Placeholders'') =
     Inr (js ''fax: [PHONE_NUMBER_01] [POSTAL_CODE_01]'') \<and>
   js ''fax: [PHONE_NUMBER_01] [POSTAL_CODE_01]'' =
     interleave faxText 0 [srvPhone, srvPostal] [js ''[PHONE_NUMBER_01]'', js ''[POSTAL_CODE_01]''] \<and>
   dashRedact (js ''Masking'') (\<lambda>k. []) faxText [srvPhone, srvPostal] =
     interleave faxText 0 [srvPhone, srvPostal] [js ''********'', js ''*****'']"
proof -
  have can: "canonicalList faxText [srvPhone, srvPostal]"
    by (simp add: canonicalList_def faxText_def srvPhone_def srvPostal_def js_def)
  have srv: "applyRedaction faxText [srvPhone, srvPostal] (js ''Smart Placeholders'') =
     Inr (js ''fax: [PHONE_NUMBER_01] [POSTAL_CODE_01]'')"
    by (simp add: applyRedaction_def sortDescending_def srvPhone_def srvPostal_def faxText_def
        serverReplacement_def padStart_def natToString.simps digitChar_def js_def)
  from redaction_preserves_entity_free_regions
         [of faxText "[srvPhone, srvPostal]" "js ''Smart Placeholders''" "js ''Masking''" "\<lambda>k. []"]
       can srv
  obtain rs rs' where rs:
      "list_all2 (\<lambda>e r. \<exists>n. serverReplacement (js ''Smart Placeholders'') e n = Inr r)
         [srvPhone, srvPostal] rs"
      "js ''fax: [PHONE_NUMBER_01] [POSTAL_CODE_01]'' = interleave faxText 0 [srvPhone, srvPostal] rs"
    and rs': "dashRedact (js ''Masking'') (\<lambda>k. []) faxText [srvPhone, srvPostal] =
      interleave faxText 0 [srvPhone, srvPostal] rs'"
    by blast
  have i1: "js ''fax: [PHONE_NUMBER_01] [POSTAL_CODE_01]'' =
     interleave faxText 0 [srvPhone, srvPostal] [js ''[PHONE_NUMBER_01]'', js ''[POSTAL_CODE_01]'']"
    by (simp add: srvPhone_def srvPostal_def faxText_def js_def)
  have i2: "dashRedact (js ''Masking'') (\<lambda>k. []) faxText [srvPhone, srvPostal] =
     interleave faxText 0 [srvPhone, srvPostal] [js ''********'', js ''*****'']"
    by (simp add: dashRedact_def dashReplacement_def sortDescending_def srvPhone_def srvPostal_def
        faxText_def js_def)
  have ne: "js ''Smart Placeholders'' \<noteq> js ''Contextual Masking''"
    by (simp add: js_def)
  from can ne srv i1 i2 rs(2) rs' show ?thesis by simp
qed

section \<open>C4: unsupported strategy names\<close>

text \<open>
  C4, as the code has it.  A strategy name without a \<open>case\<close> of its own raises no error.
  On the server every entity is then replaced by the literal \<open>[REDACTED]\<close>: the call
  returns a text, and for a canonical entity list that text is the original with each span
  replaced by \<open>[REDACTED]\<close>.  On the Dashboard such a name takes the default block, so the
  result is the one of Smart Placeholders.
\<close>

theorem unsupported_method_falls_back:
  "(method \<notin> set supportedMethods \<longrightarrow>
      serverReplacement method entity entityNum = Inr (js ''[REDACTED]'') \<and>
      (\<exists>out. applyRedaction text entities method = Inr out) \<and>
      (canonicalList text entities \<longrightarrow>
         applyRedaction text entities method =
           Inr (interleave text 0 entities (replicate (length entities) (js ''[REDACTED]''))))) \<and>
   (selectedMethod \<notin> set dashboardCases \<longrightarrow>
      dashRedact selectedMethod randomToken text entities =
      dashRedact (js ''Smart Placeholders'') randomToken text entities)"
proof (intro conjI impI)
  assume un: "method \<notin> set supportedMethods"
  then show "serverReplacement method entity entityNum = Inr (js ''[REDACTED]'')"
    by (rule unsupported_replacement)
  from un have ne: "method \<noteq> js ''Contextual Masking''"
    by (auto simp: supportedMethods_def)
  then show ex: "\<exists>out. applyRedaction text entities method = Inr out"
    unfolding applyRedaction_def by (rule redactLoop_total)
  assume can: "canonicalList text entities"
  then have rev: "sortDescending entities = rev entities"
    by (intro sortDescending_rev canonicalList_strict)
  from can
  have la: "list_all (\<lambda>e. estart e < eend e \<and> eend e \<le> length text \<and> 0 \<le> estart e) entities"
    and sw: "sorted_wrt (\<lambda>a b. eend a \<le> estart b) entities"
    by (simp_all add: canonicalList_def)
  from ex obtain out where out: "applyRedaction text entities method = Inr out" ..
  then have "redactLoop method Map.empty text (rev entities) = Inr out"
    by (simp add: applyRedaction_def rev)
  from redactLoop_frame [OF la sw _ this] obtain rs
    where rs: "list_all2 (\<lambda>e r. \<exists>n. serverReplacement method e n = Inr r) entities rs"
      and o: "out = interleave text 0 entities rs" by auto
  from rs have "list_all2 (\<lambda>e r. r = js ''[REDACTED]'') entities rs"
    by (rule list_all2_mono) (auto simp: unsupported_replacement [OF un])
  then have "rs = replicate (length entities) (js ''[REDACTED]'')"
    by (rule list_all2_const)
  with out o show "applyRedaction text entities method =
           Inr (interleave text 0 entities (replicate (length entities) (js ''[REDACTED]'')))"
    by simp
next
  assume "selectedMethod \<notin> set dashboardCases"
  then show "dashRedact selectedMethod randomToken text entities =
      dashRedact (js ''Smart Placeholders'') randomToken text entities"
    by (simp add: dashRedact_def dashLoop_default)
qed

text \<open>The theorem at the strategy name \<open>Rot13\<close> and the text with two emails.\<close>

theorem unsupported_method_falls_back_witness:
  "js ''Rot13'' \<notin> set supportedMethods \<and> js ''Rot13'' \<notin> set dashboardCases \<and>
   canonicalList twoEmails [srvEmail1, srvEmail2] \<and>
   applyRedaction twoEmails [srvEmail1, srvEmail2] (js ''Rot13'') =
     Inr (js ''[REDACTED] [REDACTED]'') \<and>
   dashRedact (js ''Rot13'') (\<lambda>k. []) twoEmails [cliEmail1, cliEmail2] =
     dashRedact (js ''Smart Placeholders'') (\<lambda>k. []) twoEmails [cliEmail1, cliEmail2]"
proof -
  have a: "js ''Rot13'' \<notin> set supportedMethods"
    by (simp add: supportedMethods_def js_def)
  have b: "js ''Rot13'' \<notin> set dashboardCases"
    by (simp add: dashboardCases_def js_def)
  have c: "canonicalList twoEmails [srvEmail1, srvEmail2]"
    by (simp add: canonicalList_def twoEmails_def srvEmail1_def srvEmail2_def js_def)
  from unsupported_method_falls_back
    [of "js ''Rot13''" srvEmail1 1 twoEmails "[srvEmail1, srvEmail2]" "js ''Rot13''" "\<lambda>k. []"] a c
  have "applyRedaction twoEmails [srvEmail1, srvEmail2] (js ''Rot13'') =
     Inr (interleave twoEmails 0 [srvEmail1, srvEmail2]
            (replicate (length [srvEmail1, srvEmail2]) (js ''[REDACTED]'')))" by blast
  then have d: "applyRedaction twoEmails [srvEmail1, srvEmail2] (js ''Rot13'') =
     Inr (js ''[REDACTED] [REDACTED]'')"
    by (simp add: twoEmails_def srvEmail1_def srvEmail2_def js_def)
  from unsupported_method_falls_back
    [of "js ''Rot13''" srvEmail1 1 twoEmails "[cliEmail1, cliEmail2]" "js ''Rot13''" "\<lambda>k. []"] b
  have e: "dashRedact (js ''Rot13'') (\<lambda>k. []) twoEmails [cliEmail1, cliEmail2] =
     dashRedact (js ''Smart Placeholders'') (\<lambda>k. []) twoEmails [cliEmail1, cliEmail2]" by blast
  from a b c d e show ?thesis by blast
qed

text \<open>
  C4 as stated fails: with the unsupported name \<open>Rot13\<close> the server returns a redacted text
  and no error, and the Dashboard returns the Smart Placeholders text.
\<close>

theorem unsupported_method_no_error_counterexample:
  "js ''Rot13'' \<notin> set supportedMethods \<and>
   applyRedaction twoEmails [srvEmail1, srvEmail2] (js ''Rot13'') =
     Inr (js ''[REDACTED] [REDACTED]'') \<and>
   dashRedact (js ''Rot13'') (\<lambda>k. []) twoEmails [cliEmail1, cliEmail2] = js ''[EMAIL] [EMAIL]''"
  by (simp add: supportedMethods_def applyRedaction_def dashRedact_def dashReplacement_def
      sortDescending_def serverReplacement_def twoEmails_def
      srvEmail1_def srvEmail2_def cliEmail1_def cliEmail2_def js_def)

section \<open>C5: empty input\<close>

text \<open>
  C5, as the code has it.  Both entry points reject an empty text before detection runs:
  the edge function answers 400 \<open>Text is required\<close> for an absent or empty text, and the
  Dashboard returns early with its \<open>No Text Provided\<close> notice for a text that is empty or
  all whitespace.  The zero-entity result whose redacted text equals the input is the
  normal result for a non-empty text in which nothing is detected.  The core functions
  themselves map the empty input to the empty output.
\<close>

theorem empty_text_is_rejected_at_the_entry_points:
  "serve patternScan None redactionMethod = Response400 (js ''Text is required'') \<and>
   serve patternScan (Some []) redactionMethod = Response400 (js ''Text is required'') \<and>
   (trim text = [] \<longrightarrow>
      handleTextSubmit detectEnhancedPII ner selectedMethod randomToken text = NoTextProvided) \<and>
   (text \<noteq> [] \<and> patternScan text = Inr [] \<longrightarrow>
      serve patternScan (Some text) redactionMethod =
        Response200 \<lparr> originalText = text, redactedText = text, resultEntities = [],
                      totalEntities = 0 \<rparr>) \<and>
   (trim text \<noteq> [] \<and> detectEnhancedPII text = [] \<and> ner text = Inr [] \<longrightarrow>
      handleTextSubmit detectEnhancedPII ner selectedMethod randomToken text =
        ProcessingComplete \<lparr> originalText = text, redactedText = text, resultEntities = [],
                             totalEntities = 0 \<rparr>) \<and>
   overlapFilter [] = [] \<and> applyRedaction [] [] method = Inr [] \<and>
   dashRedact selectedMethod randomToken [] [] = [] \<and> getPersonEntities ner [] = Inr []"
proof (intro conjI impI)
  show "serve patternScan None redactionMethod = Response400 (js ''Text is required'')"
    by (simp add: serve_def)
  show "serve patternScan (Some []) redactionMethod = Response400 (js ''Text is required'')"
    by (simp add: serve_def)
  show "overlapFilter [] = []" by (rule overlapFilter_Nil)
  show "applyRedaction [] [] method = Inr []" by (rule applyRedaction_Nil)
  show "dashRedact selectedMethod randomToken [] [] = []" by (rule dashRedact_Nil)
  show "getPersonEntities ner [] = Inr []" by (simp add: getPersonEntities_def)
next
  assume "trim text = []"
  then show "handleTextSubmit detectEnhancedPII ner selectedMethod randomToken text = NoTextProvided"
    by (simp add: handleTextSubmit_def)
next
  assume "text \<noteq> [] \<and> patternScan text = Inr []"
  then show "serve patternScan (Some text) redactionMethod =
        Response200 \<lparr> originalText = text, redactedText = text, resultEntities = [],
                      totalEntities = 0 \<rparr>"
    by (simp add: serve_def detectPII_def bindError_def overlapFilter_Nil applyRedaction_Nil)
next
  assume a: "trim text \<noteq> [] \<and> detectEnhancedPII text = [] \<and> ner text = Inr []"
  then have "text \<noteq> []" by (auto dest: trim_nonempty)
  with a show "handleTextSubmit detectEnhancedPII ner selectedMethod randomToken text =
        ProcessingComplete \<lparr> originalText = text, redactedText = text, resultEntities = [],
                             totalEntities = 0 \<rparr>"
    by (simp add: handleTextSubmit_def getPersonEntities_def bindError_def mergeEntities_Nil
        dashRedact_Nil)
qed

text \<open>The theorem at a blank text and at the text \<open>hello\<close>, in which nothing is detected.\<close>

theorem empty_text_is_rejected_witness:
  "trim (js ''  '') = [] \<and>
   handleTextSubmit (\<lambda>t. []) noPersons (js ''Smart Placeholders'') noRandom (js ''  '') =
     NoTextProvided \<and>
   js ''hello'' \<noteq> [] \<and> noEntities (js ''hello'') = Inr [] \<and>
   serve noEntities (Some (js ''hello'')) None =
     Response200 \<lparr> originalText = js ''hello'', redactedText = js ''hello'',
                   resultEntities = [], totalEntities = 0 \<rparr> \<and>
   trim (js ''hello'') \<noteq> [] \<and>
   handleTextSubmit (\<lambda>t. []) noPersons (js ''Smart Placeholders'') noRandom (js ''hello'') =
     ProcessingComplete \<lparr> originalText = js ''hello'', redactedText = js ''hello'',
                          resultEntities = [], totalEntities = 0 \<rparr>"
proof -
  have a: "trim (js ''  '') = []"
    by (simp add: trim_def isWhiteSpace_def js_def)
  have b: "js ''hello'' \<noteq> [] \<and> noEntities (js ''hello'') = Inr []"
    by (simp add: noEntities_def js_def)
  have c: "trim (js ''hello'') \<noteq> []"
    by (simp add: trim_def isWhiteSpace_def js_def)
  have d: "noPersons (js ''hello'') = Inr []" by (simp add: noPersons_def)
  note i1 = empty_text_is_rejected_at_the_entry_points
    [of noEntities None "js ''  ''" "\<lambda>t. []" noPersons "js ''Smart Placeholders''" noRandom
        "js ''Smart Placeholders''"]
  note i2 = empty_text_is_rejected_at_the_entry_points
    [of noEntities None "js ''hello''" "\<lambda>t. []" noPersons "js ''Smart Placeholders''" noRandom
        "js ''Smart Placeholders''"]
  from i1 a have e: "handleTextSubmit (\<lambda>t. []) noPersons (js ''Smart Placeholders'') noRandom
      (js ''  '') = NoTextProvided" by blast
  from i2 b have f: "serve noEntities (Some (js ''hello'')) None =
     Response200 \<lparr> originalText = js ''hello'', redactedText = js ''hello'',
                   resultEntities = [], totalEntities = 0 \<rparr>" by blast
  from i2 c d have g: "handleTextSubmit (\<lambda>t. []) noPersons (js ''Smart Placeholders'') noRandom
      (js ''hello'') =
     ProcessingComplete \<lparr> originalText = js ''hello'', redactedText = js ''hello'',
                          resultEntities = [], totalEntities = 0 \<rparr>" by blast
  from a b c e f g show ?thesis by blast
qed

text \<open>
  C5 as stated fails: for the empty text the edge function returns the error response 400
  and the Dashboard ends in its \<open>No Text Provided\<close> notice without a result.
\<close>

theorem empty_text_error_response_counterexample:
  "serve noEntities (Some []) None = Response400 (js ''Text is required'') \<and>
   handleTextSubmit (\<lambda>t. []) noPersons (js ''Smart Placeholders'') noRandom [] = NoTextProvided"
  by (simp add: serve_def handleTextSubmit_def trim_def)

section \<open>C6: failure of the statistical recognizer\<close>

text \<open>
  C6, as the code has it.  \<open>getPersonEntities\<close> passes a failure of the model on, and
  \<open>handleTextSubmit\<close> awaits it together with the pattern scan: when the recognizer fails
  on a non-blank text, the call ends in the \<open>Processing Failed\<close> notice and produces no
  result, whatever the pattern scan found.  When the recognizer answers and none of its
  groups is a person, \<open>getPersonEntities\<close> returns the empty list and the call completes
  with the pattern-based entities alone.  For a blank text \<open>getPersonEntities\<close> returns
  the empty list whatever the model would answer: the model is not consulted.
\<close>

theorem recognizer_failure_fails_the_request:
  "(trim text \<noteq> [] \<and> ner text = Inl err \<longrightarrow>
      getPersonEntities ner text = Inl err \<and>
      handleTextSubmit detectEnhancedPII ner selectedMethod randomToken text = ProcessingFailed) \<and>
   (trim text \<noteq> [] \<and> ner text = Inr output \<and>
    (\<forall>ent\<in>set output. ngroup ent \<noteq> js ''PER'' \<and> ngroup ent \<noteq> js ''PERSON'') \<longrightarrow>
      getPersonEntities ner text = Inr [] \<and>
      handleTextSubmit detectEnhancedPII ner selectedMethod randomToken text =
        ProcessingComplete
          \<lparr> originalText = text,
            redactedText = dashRedact selectedMethod randomToken text
                             (mergeEntities (detectEnhancedPII text) []),
            resultEntities = mergeEntities (detectEnhancedPII text) [],
            totalEntities = length (mergeEntities (detectEnhancedPII text) []) \<rparr>) \<and>
   (trim text = [] \<longrightarrow> getPersonEntities ner text = Inr [])"
proof (intro conjI impI)
  assume a: "trim text \<noteq> [] \<and> ner text = Inl err"
  then have ne: "text \<noteq> []" by (auto dest: trim_nonempty)
  with a show g: "getPersonEntities ner text = Inl err"
    by (simp add: getPersonEntities_def bindError_def)
  from a g show "handleTextSubmit detectEnhancedPII ner selectedMethod randomToken text =
      ProcessingFailed"
    by (simp add: handleTextSubmit_def Let_def)
next
  assume a: "trim text \<noteq> [] \<and> ner text = Inr output \<and>
    (\<forall>ent\<in>set output. ngroup ent \<noteq> js ''PER'' \<and> ngroup ent \<noteq> js ''PERSON'')"
  then have ne: "text \<noteq> []" by (auto dest: trim_nonempty)
  from a have "filter (\<lambda>ent. ngroup ent = js ''PER'' \<or> ngroup ent = js ''PERSON'') output = []"
    by (simp add: filter_empty_conv)
  with a ne show g: "getPersonEntities ner text = Inr []"
    by (simp add: getPersonEntities_def bindError_def)
  from a g show "handleTextSubmit detectEnhancedPII ner selectedMethod randomToken text =
        ProcessingComplete
          \<lparr> originalText = text,
            redactedText = dashRedact selectedMethod randomToken text
                             (mergeEntities (detectEnhancedPII text) []),
            resultEntities = mergeEntities (detectEnhancedPII text) [],
            totalEntities = length (mergeEntities (detectEnhancedPII text) []) \<rparr>"
    by (simp add: handleTextSubmit_def Let_def)
next
  assume "trim text = []"
  then show "getPersonEntities ner text = Inr []"
    by (simp add: getPersonEntities_def)
qed

text \<open>
  The theorem at the text with two emails, once with a failing recognizer and once with a
  recognizer that reports an organisation only, and at a blank text with the failing
  recognizer.
\<close>

theorem recognizer_failure_witness:
  "trim twoEmails \<noteq> [] \<and> modelDown twoEmails = Inl ModelFailure \<and>
   getPersonEntities modelDown twoEmails = Inl ModelFailure \<and>
   handleTextSubmit twoEmailScan modelDown (js ''Smart Placeholders'') noRandom twoEmails =
     ProcessingFailed \<and>
   organisationsOnly twoEmails = Inr [nerDomain] \<and>
   ngroup nerDomain \<noteq> js ''PER'' \<and> ngroup nerDomain \<noteq> js ''PERSON'' \<and>
   getPersonEntities organisationsOnly twoEmails = Inr [] \<and>
   handleTextSubmit twoEmailScan organisationsOnly (js ''Smart Placeholders'') noRandom twoEmails =
     ProcessingComplete
       \<lparr> originalText = twoEmails, redactedText = js ''[EMAIL] [EMAIL]'',
         resultEntities = [cliEmail1, cliEmail2], totalEntities = 2 \<rparr> \<and>
   trim (js ''  '') = [] \<and> getPersonEntities modelDown (js ''  '') = Inr []"
proof -
  have a: "trim twoEmails \<noteq> []"
    by (simp add: trim_def isWhiteSpace_def twoEmails_def js_def)
  have b: "modelDown twoEmails = Inl ModelFailure" by (simp add: modelDown_def)
  have c: "organisationsOnly twoEmails = Inr [nerDomain]" by (simp add: organisationsOnly_def)
  have g: "ngroup nerDomain \<noteq> js ''PER'' \<and> ngroup nerDomain \<noteq> js ''PERSON''"
    by (simp add: nerDomain_def js_def)
  have bl: "trim (js ''  '') = []"
    by (simp add: trim_def isWhiteSpace_def js_def)
  from recognizer_failure_fails_the_request
    [of "twoEmails" modelDown ModelFailure twoEmailScan "js ''Smart Placeholders''" noRandom "[]"] a b
  have d: "getPersonEntities modelDown twoEmails = Inl ModelFailure \<and>
     handleTextSubmit twoEmailScan modelDown (js ''Smart Placeholders'') noRandom twoEmails =
     ProcessingFailed" by blast
  have m: "mergeEntities (twoEmailScan twoEmails) [] = [cliEmail1, cliEmail2]"
    by (simp add: twoEmailScan_def mergeEntities_def mergeStep_def spanKey_def cliEmail1_def
        cliEmail2_def twoEmails_def natToString.simps digitChar_def js_def)
  have r: "dashRedact (js ''Smart Placeholders'') noRandom twoEmails [cliEmail1, cliEmail2] =
      js ''[EMAIL] [EMAIL]''"
    by (simp add: dashRedact_def dashReplacement_def sortDescending_def cliEmail1_def
        cliEmail2_def twoEmails_def js_def)
  have q: "\<forall>ent\<in>set [nerDomain]. ngroup ent \<noteq> js ''PER'' \<and> ngroup ent \<noteq> js ''PERSON''"
    using g by simp
  from recognizer_failure_fails_the_request
    [of "twoEmails" organisationsOnly ModelFailure twoEmailScan "js ''Smart Placeholders''"
        noRandom "[nerDomain]"] a c q
  have "getPersonEntities organisationsOnly twoEmails = Inr [] \<and>
        handleTextSubmit twoEmailScan organisationsOnly (js ''Smart Placeholders'') noRandom
          twoEmails =
        ProcessingComplete
          \<lparr> originalText = twoEmails,
            redactedText = dashRedact (js ''Smart Placeholders'') noRandom twoEmails
                             (mergeEntities (twoEmailScan twoEmails) []),
            resultEntities = mergeEntities (twoEmailScan twoEmails) [],
            totalEntities = length (mergeEntities (twoEmailScan twoEmails) []) \<rparr>" by blast
  then have e: "getPersonEntities organisationsOnly twoEmails = Inr [] \<and>
     handleTextSubmit twoEmailScan organisationsOnly (js ''Smart Placeholders'') noRandom
      twoEmails =
     ProcessingComplete
       \<lparr> originalText = twoEmails, redactedText = js ''[EMAIL] [EMAIL]'',
         resultEntities = [cliEmail1, cliEmail2], totalEntities = 2 \<rparr>"
    unfolding m r by simp
  from recognizer_failure_fails_the_request
    [of "js ''  ''" modelDown ModelFailure twoEmailScan "js ''Smart Placeholders''" noRandom "[]"] bl
  have f: "getPersonEntities modelDown (js ''  '') = Inr []" by blast
  from a b c d e f g bl show ?thesis by blast
qed

text \<open>
  C6 as stated fails: the pattern scan finds two emails, the recognizer fails, and the call
  ends in \<open>Processing Failed\<close> with neither entities nor a redacted text.
\<close>

theorem recognizer_failure_counterexample:
  "twoEmailScan twoEmails = [cliEmail1, cliEmail2] \<and>
   handleTextSubmit twoEmailScan modelDown (js ''Smart Placeholders'') noRandom twoEmails =
     ProcessingFailed"
  by (simp add: handleTextSubmit_def getPersonEntities_def bindError_def modelDown_def
      twoEmailScan_def trim_def isWhiteSpace_def twoEmails_def js_def)

section \<open>C7: which of two overlapping entities is kept\<close>

text \<open>
  C7, as the code has it.  In the filter loop of the server, when the candidate \<open>e\<close> comes
  up after the candidates \<open>pre\<close> (all candidates having non-empty spans) and overlaps an
  accepted entity \<open>x\<close> under the half-open-interval test, the code's own test finds \<open>x\<close>,
  and \<open>e\<close> takes the place of \<open>x\<close> exactly when its confidence is strictly higher; on
  equal or lower confidence the accepted list is unchanged, so the earlier entity stays.
  A candidate that overlaps no accepted entity is appended.  The Dashboard merge, where
  pattern-based and model-based entities meet, compares no confidences: for every span
  key the merged list holds the first entity of \<open>regexEntities @ nerNameEntities\<close> with that
  key, so a span detected by both sources is kept once, as the pattern-based entity; two
  entities have the same key exactly when their \<open>(start, end)\<close> pairs are equal.
\<close>

theorem merger_confidence_and_first_wins:
  "(list_all wellFormed cands \<and> sortAscending cands = pre @ e # post \<longrightarrow>
      (let acc = foldl filterStep [] pre in
         (\<forall>x\<in>set acc. halfOpenOverlap e x \<longrightarrow>
            overlapsExisting e x \<and>
            (if confidence e > confidence x
             then set (filterStep acc e) = insert e (set acc - {x}) \<and>
                  length (filterStep acc e) = length acc
             else filterStep acc e = acc)) \<and>
         ((\<forall>x\<in>set acc. \<not> halfOpenOverlap e x) \<longrightarrow> filterStep acc e = acc @ [e]))) \<and>
   find (\<lambda>x. spanKey x = k) (mergeEntities regexEntities nerNameEntities) =
     find (\<lambda>x. spanKey x = k) (regexEntities @ nerNameEntities) \<and>
   distinct (map spanKey (mergeEntities regexEntities nerNameEntities)) \<and>
   (spanKey a = spanKey b) = (estart a = estart b \<and> eend a = eend b)"
proof (intro conjI impI)
  assume "list_all wellFormed cands \<and> sortAscending cands = pre @ e # post"
  then have inv: "accepted_inv (estart e) (foldl filterStep [] pre)" and wf: "wellFormed e"
    using loop_state_inv [of cands pre e post] by simp_all
  show "let acc = foldl filterStep [] pre in
         (\<forall>x\<in>set acc. halfOpenOverlap e x \<longrightarrow>
            overlapsExisting e x \<and>
            (if confidence e > confidence x
             then set (filterStep acc e) = insert e (set acc - {x}) \<and>
                  length (filterStep acc e) = length acc
             else filterStep acc e = acc)) \<and>
         ((\<forall>x\<in>set acc. \<not> halfOpenOverlap e x) \<longrightarrow> filterStep acc e = acc @ [e])"
    unfolding Let_def
  proof (intro conjI ballI impI)
    fix x assume x: "x \<in> set (foldl filterStep [] pre)" "halfOpenOverlap e x"
    show "overlapsExisting e x"
      using halfOpenOverlap_iff [OF wf accepted_inv_wf [OF inv x(1)]] x(2) by simp
    show "if confidence e > confidence x
          then set (filterStep (foldl filterStep [] pre) e) =
                 insert e (set (foldl filterStep [] pre) - {x}) \<and>
               length (filterStep (foldl filterStep [] pre) e) = length (foldl filterStep [] pre)
          else filterStep (foldl filterStep [] pre) e = foldl filterStep [] pre"
      by (rule filterStep_overlap [OF inv wf _ x]) simp
  next
    assume "\<forall>x\<in>set (foldl filterStep [] pre). \<not> halfOpenOverlap e x"
    then show "filterStep (foldl filterStep [] pre) e = foldl filterStep [] pre @ [e]"
      by (rule filterStep_no_overlap [OF inv wf])
  qed
next
  show "find (\<lambda>x. spanKey x = k) (mergeEntities regexEntities nerNameEntities) =
     find (\<lambda>x. spanKey x = k) (regexEntities @ nerNameEntities)"
    by (rule mergeEntities_first_wins)
  show "distinct (map spanKey (mergeEntities regexEntities nerNameEntities))"
    by (rule mergeEntities_distinct_keys)
  show "(spanKey a = spanKey b) = (estart a = estart b \<and> eend a = eend b)"
    by (rule spanKey_inject)
qed

text \<open>
  The theorem at concrete inputs: on the server the phone number replaces the fax number
  that contains it (confidence 0.92 against 0.90); on the Dashboard the pattern-based
  name is the entity kept for the span it shares with the recognizer's.
\<close>

theorem merger_confidence_witness:
  "list_all wellFormed [srvPhone, srvFax, srvPostal] \<and>
   sortAscending [srvPhone, srvFax, srvPostal] = [srvFax] @ srvPhone # [srvPostal] \<and>
   foldl filterStep [] [srvFax] = [srvFax] \<and>
   halfOpenOverlap srvPhone srvFax \<and>
   confidence srvPhone > confidence srvFax \<and>
   set (filterStep [srvFax] srvPhone) = {srvPhone} \<and>
   sortAscending [srvPhone, srvFax, srvPostal] = [srvFax, srvPhone] @ srvPostal # [] \<and>
   foldl filterStep [] [srvFax, srvPhone] = [srvPhone] \<and>
   \<not> halfOpenOverlap srvPostal srvPhone \<and>
   filterStep [srvPhone] srvPostal = [srvPhone, srvPostal] \<and>
   find (\<lambda>x. spanKey x = spanKey regexJohn)
     (mergeEntities [regexJohn] [toNameEntity (toPerson nerJohn)]) = Some regexJohn"
proof -
  have a: "list_all wellFormed [srvPhone, srvFax, srvPostal]"
    by (simp add: wellFormed_def srvPhone_def srvFax_def srvPostal_def)
  have b: "sortAscending [srvPhone, srvFax, srvPostal] = [srvFax] @ srvPhone # [srvPostal]"
    by (simp add: sortAscending_def srvPhone_def srvFax_def srvPostal_def)
  have f: "foldl filterStep [] [srvFax] = [srvFax]"
    by (simp add: filterStep_def)
  have h: "halfOpenOverlap srvPhone srvFax"
    by (simp add: halfOpenOverlap_def srvPhone_def srvFax_def)
  have c: "confidence srvPhone > confidence srvFax"
    by (simp add: srvPhone_def srvFax_def)
  note inst = merger_confidence_and_first_wins
    [of "[srvPhone, srvFax, srvPostal]" "[srvFax]" srvPhone "[srvPostal]" "spanKey regexJohn"
        "[regexJohn]" "[toNameEntity (toPerson nerJohn)]" regexJohn regexJohn]
  from inst a b have "\<forall>x\<in>set [srvFax]. halfOpenOverlap srvPhone x \<longrightarrow>
            overlapsExisting srvPhone x \<and>
            (if confidence srvPhone > confidence x
             then set (filterStep [srvFax] srvPhone) = insert srvPhone (set [srvFax] - {x}) \<and>
                  length (filterStep [srvFax] srvPhone) = length [srvFax]
             else filterStep [srvFax] srvPhone = [srvFax])"
    unfolding f Let_def by blast
  with h c have d: "set (filterStep [srvFax] srvPhone) = {srvPhone}" by simp
  have b2: "sortAscending [srvPhone, srvFax, srvPostal] = [srvFax, srvPhone] @ srvPostal # []"
    by (simp add: sortAscending_def srvPhone_def srvFax_def srvPostal_def)
  have f2: "foldl filterStep [] [srvFax, srvPhone] = [srvPhone]"
    by (simp add: filterStep_def overlapsExisting_def srvPhone_def srvFax_def)
  have h2: "\<not> halfOpenOverlap srvPostal srvPhone"
    by (simp add: halfOpenOverlap_def srvPhone_def srvPostal_def)
  from merger_confidence_and_first_wins
    [of "[srvPhone, srvFax, srvPostal]" "[srvFax, srvPhone]" srvPostal "[]" "spanKey regexJohn"
        "[regexJohn]" "[toNameEntity (toPerson nerJohn)]" regexJohn regexJohn] a b2
  have "(\<forall>x\<in>set [srvPhone]. \<not> halfOpenOverlap srvPostal x) \<longrightarrow>
          filterStep [srvPhone] srvPostal = [srvPhone] @ [srvPostal]"
    unfolding f2 Let_def by blast
  with h2 have g: "filterStep [srvPhone] srvPostal = [srvPhone, srvPostal]" by simp
  from inst have "find (\<lambda>x. spanKey x = spanKey regexJohn)
     (mergeEntities [regexJohn] [toNameEntity (toPerson nerJohn)]) =
     find (\<lambda>x. spanKey x = spanKey regexJohn) ([regexJohn] @ [toNameEntity (toPerson nerJohn)])"
    by blast
  then have e: "find (\<lambda>x. spanKey x = spanKey regexJohn)
     (mergeEntities [regexJohn] [toNameEntity (toPerson nerJohn)]) = Some regexJohn"
    by simp
  from a b f h c d b2 f2 h2 g e show ?thesis by blast
qed

text \<open>
  C7 as stated fails for the Dashboard merge: the recognizer's entity for \<open>John Smith\<close>
  overlaps the pattern-based one (same span) and has the strictly higher confidence, yet
  the pattern-based entity is the one kept.
\<close>

theorem merge_ignores_confidence_counterexample:
  "mergeEntities [regexJohn] [toNameEntity (toPerson nerJohn)] = [regexJohn] \<and>
   halfOpenOverlap (toNameEntity (toPerson nerJohn)) regexJohn \<and>
   confidence (toNameEntity (toPerson nerJohn)) > confidence regexJohn"
  by (simp add: mergeEntities_def mergeStep_def spanKey_def halfOpenOverlap_def toNameEntity_def
      toPerson_def regexJohn_def nerJohn_def natToString.simps digitChar_def js_def)

section \<open>C8: the payment-card checksum\<close>

lemma luhnLoop_sum:
  "luhnLoop xs s b =
     s + (\<Sum>i < length xs.
            let d = parseDigit (xs ! i)
            in if odd i \<noteq> b then (if 2 * d > 9 then 2 * d - 9 else 2 * d) else d)"
proof (induction xs arbitrary: s b)
  case Nil
  show ?case by simp
next
  case (Cons c cs)
  show ?case
    apply (simp only: luhnLoop.simps Let_def Cons.IH length_Cons sum.lessThan_Suc_shift)
    apply (cases b)
     apply (simp_all add: mult.commute cong: if_cong)
    done
qed

lemma luhnLoop_luhnSum: "luhnLoop (rev digits) 0 False = luhnSum digits"
  by (simp add: luhnLoop_sum luhnSum_def)

text \<open>
  C8.  \<open>isValidCreditCard\<close> strips the non-digit characters; it returns false when fewer
  than 13 or more than 19 digits remain, and otherwise it returns true exactly when the
  Luhn sum (every second digit from the rightmost doubled, 9 subtracted from a doubled
  value above 9, all added) is divisible by 10.  In particular it accepts
  \<open>4111111111111111\<close> and rejects \<open>4111111111111112\<close>.
\<close>

theorem isValidCreditCard_luhn:
  "isValidCreditCard number =
     (13 \<le> length (filter isDigit number) \<and> length (filter isDigit number) \<le> 19 \<and>
      luhnSum (filter isDigit number) mod 10 = 0) \<and>
   isValidCreditCard (js ''4111111111111111'') \<and>
   \<not> isValidCreditCard (js ''4111111111111112'')"
proof (intro conjI)
  show "isValidCreditCard number =
     (13 \<le> length (filter isDigit number) \<and> length (filter isDigit number) \<le> 19 \<and>
      luhnSum (filter isDigit number) mod 10 = 0)"
    unfolding isValidCreditCard_def Let_def luhnLoop_luhnSum by auto
  show "isValidCreditCard (js ''4111111111111111'')"
    by (simp add: isValidCreditCard_def js_def isDigit_def parseDigit_def)
  show "\<not> isValidCreditCard (js ''4111111111111112'')"
    by (simp add: isValidCreditCard_def js_def isDigit_def parseDigit_def)
qed

section \<open>C9: the cascade of the name filter\<close>

text \<open>
  C9.  \<open>isValidPersonName\<close> checks its rejection rules first: a candidate whose context
  matches a document-structure pattern, or whose following text matches a role pattern,
  is rejected whatever the acceptance rules say.  A candidate that is not rejected is
  accepted when a strong person indicator precedes it or when it starts with a title.
  A candidate that reaches the structural stage is accepted exactly when it splits into
  2 or 3 whitespace-separated parts, each of 2 to 15 characters and of the form one
  capital letter followed by lower-case letters.  In the text
  \<open>Document Type: John Smith\<close> the span \<open>John Smith\<close> is rejected; in
  \<open>Dr. Jane Doe will see you now\<close> the span \<open>Dr. Jane Doe\<close> is accepted.
\<close>

theorem isValidPersonName_cascade:
  "(documentRejected name fullText position \<or> roleRejected name fullText position \<longrightarrow>
      \<not> isValidPersonName name fullText position) \<and>
   (\<not> documentRejected name fullText position \<and> \<not> roleRejected name fullText position \<and>
    (stronglyAccepted fullText position \<or> hasTitlePrefix name) \<longrightarrow>
      isValidPersonName name fullText position) \<and>
   (\<not> documentRejected name fullText position \<and> \<not> roleRejected name fullText position \<and>
    \<not> stronglyAccepted fullText position \<and> \<not> hasTitlePrefix name \<longrightarrow>
      isValidPersonName name fullText position =
        ((length (splitWhitespace (trim name)) = 2 \<or> length (splitWhitespace (trim name)) = 3) \<and>
         list_all (\<lambda>part. 2 \<le> length part \<and> length part \<le> 15 \<and> capitalizedWord part)
           (splitWhitespace (trim name)))) \<and>
   \<not> isValidPersonName (js ''John Smith'') docText 15 \<and>
   isValidPersonName (js ''Dr. Jane Doe'') drText 0"
proof (intro conjI impI)
  assume "documentRejected name fullText position \<or> roleRejected name fullText position"
  then show "\<not> isValidPersonName name fullText position"
    by (auto simp: isValidPersonName_def documentRejected_def roleRejected_def Let_def)
next
  assume "\<not> documentRejected name fullText position \<and> \<not> roleRejected name fullText position \<and>
    (stronglyAccepted fullText position \<or> hasTitlePrefix name)"
  then show "isValidPersonName name fullText position"
    by (auto simp: isValidPersonName_def documentRejected_def roleRejected_def
        stronglyAccepted_def hasTitlePrefix_def Let_def)
next
  assume a: "\<not> documentRejected name fullText position \<and> \<not> roleRejected name fullText position \<and>
    \<not> stronglyAccepted fullText position \<and> \<not> hasTitlePrefix name"
  have v: "validNamePart = (\<lambda>part. 2 \<le> length part \<and> length part \<le> 15 \<and> capitalizedWord part)"
    by (auto simp: validNamePart_def capitalizedWord_iff fun_eq_iff)
  from a show "isValidPersonName name fullText position =
        ((length (splitWhitespace (trim name)) = 2 \<or> length (splitWhitespace (trim name)) = 3) \<and>
         list_all (\<lambda>part. 2 \<le> length part \<and> length part \<le> 15 \<and> capitalizedWord part)
           (splitWhitespace (trim name)))"
    unfolding isValidPersonName_def documentRejected_def roleRejected_def
        stronglyAccepted_def hasTitlePrefix_def Let_def v
    by auto
next
  show "\<not> isValidPersonName (js ''John Smith'') docText 15" by (rule john_smith_rejected)
  show "isValidPersonName (js ''Dr. Jane Doe'') drText 0" by (rule dr_jane_doe_accepted)
qed

text \<open>
  The theorem at concrete inputs: \<open>John Smith\<close> after \<open>Document Type:\<close> meets a rejection
  rule, \<open>Dr. Jane Doe\<close> is not rejected and carries a title, and \<open>Mary Jones\<close> in
  \<open>john met Mary Jones and Alan Turing, a@b.co\<close> reaches the structural stage and passes it.
  In \<open>Dear Mary Jones, manager\<close> the salutation before the name is a strong person
  indicator and the word after it a role: the role rule comes first and the name is
  rejected.
\<close>

theorem isValidPersonName_cascade_witness:
  "documentRejected (js ''John Smith'') docText 15 \<and>
   \<not> documentRejected (js ''Dr. Jane Doe'') drText 0 \<and>
   \<not> roleRejected (js ''Dr. Jane Doe'') drText 0 \<and> hasTitlePrefix (js ''Dr. Jane Doe'') \<and>
   \<not> documentRejected (js ''Mary Jones'') namesText 9 \<and>
   \<not> roleRejected (js ''Mary Jones'') namesText 9 \<and>
   \<not> stronglyAccepted namesText 9 \<and> \<not> hasTitlePrefix (js ''Mary Jones'') \<and>
   splitWhitespace (trim (js ''Mary Jones'')) = [js ''Mary'', js ''Jones''] \<and>
   isValidPersonName (js ''Mary Jones'') namesText 9 \<and>
   \<not> documentRejected (js ''Mary Jones'') dearText 5 \<and>
   roleRejected (js ''Mary Jones'') dearText 5 \<and> stronglyAccepted dearText 5 \<and>
   \<not> isValidPersonName (js ''Mary Jones'') dearText 5"
proof -
  from isValidPersonName_cascade [of "js ''Mary Jones''" dearText 5] mary_jones_manager
  have role: "\<not> isValidPersonName (js ''Mary Jones'') dearText 5" by blast
  from isValidPersonName_cascade [of "js ''Mary Jones''" namesText 9] mary_jones_reaches_structure
  have "isValidPersonName (js ''Mary Jones'') namesText 9 =
        ((length (splitWhitespace (trim (js ''Mary Jones''))) = 2 \<or>
          length (splitWhitespace (trim (js ''Mary Jones''))) = 3) \<and>
         list_all (\<lambda>part. 2 \<le> length part \<and> length part \<le> 15 \<and> capitalizedWord part)
           (splitWhitespace (trim (js ''Mary Jones''))))" by blast
  then have "isValidPersonName (js ''Mary Jones'') namesText 9"
    unfolding mary_jones_parts by (simp add: capitalizedWord_def isUpper_def isLower_def js_def)
  with john_smith_document_rejected mary_jones_reaches_structure mary_jones_parts
    dr_jane_doe_title mary_jones_manager role show ?thesis by blast
qed

section \<open>C10: the hash replacement\<close>

lemma toHexString_length: "0 < k \<Longrightarrow> n < 16 ^ k \<Longrightarrow> length (toHexString n) \<le> k"
proof (induction n arbitrary: k rule: toHexString.induct)
  case (1 n)
  show ?case
  proof (cases "n < 16")
    case True
    with "1.prems" show ?thesis by (simp add: toHexString.simps [of n])
  next
    case False
    with "1.prems" obtain j where k: "k = Suc j"
      by (cases k) auto
    have j: "0 < j"
    proof (rule ccontr)
      assume "\<not> 0 < j"
      with k "1.prems" False show False by simp
    qed
    have "n div 16 < 16 ^ j"
      using "1.prems"(2) k by (simp add: less_mult_imp_div_less mult.commute)
    from "1.IH" [OF False j this] k False show ?thesis
      by (simp add: toHexString.simps [of n])
  qed
qed

lemma hexDigit_upper: "\<forall>d\<in>set [0..<16]. isUpperHex (toUpperAscii (hexDigit d))"
  by code_simp

lemma hexDigit_upper': "d < 16 \<Longrightarrow> isUpperHex (toUpperAscii (hexDigit d))"
  using hexDigit_upper by simp

lemma toHexString_upper: "list_all (\<lambda>c. isUpperHex (toUpperAscii c)) (toHexString n)"
proof (induction n rule: toHexString.induct)
  case (1 n)
  show ?case
  proof (cases "n < 16")
    case True
    then show ?thesis by (simp add: toHexString.simps [of n] hexDigit_upper')
  next
    case False
    with 1 show ?thesis by (simp add: toHexString.simps [of n] hexDigit_upper')
  qed
qed

lemma abs_sint_bound: "nat \<bar>sint (h :: 32 word)\<bar> < 16 ^ 8"
proof -
  have "- (2 ^ 31) \<le> sint h" "sint h < 2 ^ 31"
    using sint_ge [of h] sint_lt [of h] by simp_all
  then show ?thesis by simp
qed

lemma hashStr_length: "length (hashStr text) = 8"
proof -
  have "length (toHexString (nat \<bar>sint (hashLoop text 0)\<bar>)) \<le> 8"
    by (rule toHexString_length [OF _ abs_sint_bound]) simp
  then show ?thesis by (simp add: hashStr_def padStart_def)
qed

lemma zero_upper: "isUpperHex (toUpperAscii 0x30)"
  by (simp add: isUpperHex_def toUpperAscii_def isDigit_def isLower_def)

lemma hashStr_upper: "list_all isUpperHex (hashStr text)"
proof -
  have "list_all (\<lambda>c. isUpperHex (toUpperAscii c))
          (padStart 8 0x30 (toHexString (nat \<bar>sint (hashLoop text 0)\<bar>)))"
    using toHexString_upper [of "nat \<bar>sint (hashLoop text 0)\<bar>"] zero_upper
    by (auto simp: padStart_def list_all_iff)
  then show ?thesis
    by (auto simp: hashStr_def list_all_iff dest: in_set_takeD)
qed

text \<open>
  C10.  \<open>generateCryptographicHash\<close> is a function of the entity text and the entity type
  alone.  Its value is \<open>[HASH_<TYPE>_<H>]\<close>, where \<open>H\<close> is exactly 8 characters, each an
  upper-case hexadecimal digit; and the Cryptographic Hash strategy replaces an entity by
  this value whatever its sequence number, so equal PII values of one type get the same
  replacement.
\<close>

theorem generateCryptographicHash_format:
  "generateCryptographicHash text entityType =
     js ''[HASH_'' @ entityType @ js ''_'' @ hashStr text @ js '']'' \<and>
   length (hashStr text) = 8 \<and> list_all isUpperHex (hashStr text) \<and>
   serverReplacement (js ''Cryptographic Hash'') entity entityNum =
     Inr (generateCryptographicHash (etext entity) (etype entity))"
  by (simp add: generateCryptographicHash_def hashStr_length hashStr_upper serverReplacement_def js_def)

lemma hashLoop_example:
  "hashLoop (js ''john.smith@example.com'') 0 = word_of_int (- 846575587)"
  by (simp add: js_def)

lemma hashStr_example: "hashStr (js ''john.smith@example.com'') = js ''3275B7E3''"
proof -
  have "nat \<bar>sint (word_of_int (- 846575587) :: 32 word)\<bar> = 846575587"
    by simp
  moreover have "toHexString 846575587 = js ''3275b7e3''"
    by (simp add: toHexString.simps hexDigit_def js_def)
  ultimately show ?thesis
    unfolding hashStr_def hashLoop_example
    by (simp add: padStart_def js_def toUpperAscii_def isLower_def)
qed

text \<open>The theorem at a concrete value: the hash token of an email address.\<close>

theorem generateCryptographicHash_example:
  "generateCryptographicHash (js ''john.smith@example.com'') (js ''EMAIL_ADDRESS'') =
     js ''[HASH_EMAIL_ADDRESS_3275B7E3]''"
proof -
  from generateCryptographicHash_format
         [of "js ''john.smith@example.com''" "js ''EMAIL_ADDRESS''" cxEmail 1]
  have "generateCryptographicHash (js ''john.smith@example.com'') (js ''EMAIL_ADDRESS'') =
          js ''[HASH_'' @ js ''EMAIL_ADDRESS'' @ js ''_'' @
          hashStr (js ''john.smith@example.com'') @ js '']''"
    by (rule conjunct1)
  then show ?thesis
    unfolding hashStr_example by (simp add: js_def)
qed

end
